theory Spec2Isabelle
  imports Complex_Main "HOL-Library.Word" "HOL-Library.List_Lexorder" "HOL-Library.Char_ord"
begin

section \<open>Keys, key ranges, regions and timestamps\<close>

text \<open>
  Modelled from the spec: \<open>store_key_t\<close>, \<open>key_range_t\<close>, \<open>region_t\<close> and
  \<open>state_timestamp_t\<close> are declared outside the files under verification.
  A key is a byte string compared lexicographically; the empty key is the least key and
  stands for the left bound \<open>-\<infinity>\<close>. A key range has an inclusive left key and a right
  bound that is either an exclusive key or unbounded. A region is a hash-shard range
  \<open>[hash_beg, hash_end)\<close> together with a key range. A timestamp is an unsigned 64-bit
  counter.
\<close>

type_synonym store_key = string

datatype right_bound = Bounded store_key | Unbounded

record key_range =
  left :: store_key
  right :: right_bound

record region =
  hash_beg :: "64 word"
  hash_end :: "64 word"
  inner :: key_range

type_synonym state_timestamp = "64 word"

text \<open>\<open>key_range_t::empty()\<close>: the default-constructed range, from the least key to the
  least key.\<close>

definition key_range_empty :: key_range where
  "key_range_empty = \<lparr>left = [], right = Bounded []\<rparr>"

text \<open>\<open>region_t::empty()\<close>: an empty hash range around the empty key range.\<close>

definition region_empty :: region where
  "region_empty = \<lparr>hash_beg = 0, hash_end = 0, inner = key_range_empty\<rparr>"

definition key_range_is_empty :: "key_range \<Rightarrow> bool" where
  "key_range_is_empty kr =
     (case right kr of Unbounded \<Rightarrow> False | Bounded r \<Rightarrow> r \<le> left kr)"

definition region_is_empty :: "region \<Rightarrow> bool" where
  "region_is_empty r = (hash_beg r = hash_end r \<or> key_range_is_empty (inner r))"

text \<open>Whether a key is below a right bound, and the order of right bounds.\<close>

fun key_below :: "store_key \<Rightarrow> right_bound \<Rightarrow> bool" where
  "key_below k Unbounded = True"
| "key_below k (Bounded r) = (k < r)"

fun right_bound_le :: "right_bound \<Rightarrow> right_bound \<Rightarrow> bool" where
  "right_bound_le _ Unbounded = True"
| "right_bound_le Unbounded (Bounded _) = False"
| "right_bound_le (Bounded a) (Bounded b) = (a \<le> b)"

definition contains_key :: "key_range \<Rightarrow> store_key \<Rightarrow> bool" where
  "contains_key kr k = (left kr \<le> k \<and> key_below k (right kr))"

text \<open>A key belongs to a region when its hash lies in the hash range and the key lies in
  the key range. The hash function is a parameter.\<close>

definition region_contains_key ::
  "(store_key \<Rightarrow> 64 word) \<Rightarrow> region \<Rightarrow> store_key \<Rightarrow> bool" where
  "region_contains_key h r k =
     (hash_beg r \<le> h k \<and> h k < hash_end r \<and> contains_key (inner r) k)"

section \<open>The backfill end-timestamp map\<close>

text \<open>\<open>backfill_end_timestamps_t\<close>: the covered region, the cached maximum timestamp and
  the steps \<open>(left key, timestamp)\<close> in the order of the vector.\<close>

record backfill_end_timestamps =
  bets_region :: region
  max_timestamp :: state_timestamp
  steps :: "(store_key \<times> state_timestamp) list"

text \<open>The default constructor: the empty region and no steps. The source leaves
  \<open>max_timestamp\<close> uninitialised; the model takes it as a parameter.\<close>

definition bets_default :: "state_timestamp \<Rightarrow> backfill_end_timestamps" where
  "bets_default ts0 = \<lparr>bets_region = region_empty, max_timestamp = ts0, steps = []\<rparr>"

definition get_max_timestamp :: "backfill_end_timestamps \<Rightarrow> state_timestamp" where
  "get_max_timestamp b = max_timestamp b"

text \<open>The loop of \<open>region_for_timestamp\<close>: the first step whose timestamp is at least
  \<open>ts\<close> cuts the right bound of \<open>r\<close> and leaves the loop.\<close>

fun region_for_timestamp_loop ::
  "region \<Rightarrow> (store_key \<times> state_timestamp) list \<Rightarrow> state_timestamp \<Rightarrow> region" where
  "region_for_timestamp_loop r [] ts = r"
| "region_for_timestamp_loop r (step # rest) ts =
     (if snd step \<ge> ts
      then r\<lparr>inner := (inner r)\<lparr>right := Bounded (fst step)\<rparr>\<rparr>
      else region_for_timestamp_loop r rest ts)"

definition region_for_timestamp ::
  "backfill_end_timestamps \<Rightarrow> state_timestamp \<Rightarrow> region" where
  "region_for_timestamp b ts = region_for_timestamp_loop (bets_region b) (steps b) ts"

text \<open>The backfill timestamp of a key: the timestamp of the last step whose left key is
  not above the key. It is meant for keys at or above the first step.\<close>

definition timestamp_at ::
  "(store_key \<times> state_timestamp) list \<Rightarrow> store_key \<Rightarrow> state_timestamp" where
  "timestamp_at ss k = snd (last (takeWhile (\<lambda>s. fst s \<le> k) ss))"

text \<open>The invariants of a non-empty map: the steps start at the left key of the region,
  their keys ascend strictly and stay below the right bound of the region, their
  timestamps never decrease, and the cached maximum is the last timestamp.\<close>

definition steps_wf :: "store_key \<Rightarrow> right_bound \<Rightarrow> (store_key \<times> state_timestamp) list \<Rightarrow> bool" where
  "steps_wf l rb ss =
     (ss \<noteq> [] \<and> fst (hd ss) = l \<and> sorted_wrt (<) (map fst ss) \<and>
      list_all (\<lambda>s. key_below (fst s) rb) ss \<and> sorted_wrt (\<le>) (map snd ss))"

definition bets_wf :: "backfill_end_timestamps \<Rightarrow> bool" where
  "bets_wf b =
     (steps_wf (left (inner (bets_region b))) (right (inner (bets_region b))) (steps b) \<and>
      max_timestamp b = snd (last (steps b)))"

section \<open>Failures\<close>

text \<open>A failed \<open>guarantee\<close> or \<open>rassert\<close> stops the process; the model returns the
  failure instead of a value. \<open>rassert\<close> is compiled out of release builds, so functions
  that use it take the build flag \<open>ndebug\<close>. Reading the last element of an empty vector
  is undefined in the source and a failure in the model.\<close>

datatype failure = Guarantee_failed | Rassert_failed | Empty_vector

section \<open>Concatenating two maps\<close>

text \<open>\<open>combine\<close>: an empty argument leaves the other map; otherwise the regions must share
  the hash range and touch, and the timestamps must not decrease across the join. The
  first step of \<open>next\<close> is skipped when it repeats the last timestamp of \<open>this\<close>.\<close>

definition combine ::
  "backfill_end_timestamps \<Rightarrow> backfill_end_timestamps \<Rightarrow> failure + backfill_end_timestamps" where
  "combine this next =
     (if region_is_empty (bets_region next) then Inr this
      else if region_is_empty (bets_region this) then Inr next
      else if \<not> (hash_beg (bets_region this) = hash_beg (bets_region next) \<and>
                  hash_end (bets_region this) = hash_end (bets_region next))
        then Inl Guarantee_failed
      else if right (inner (bets_region this)) \<noteq> Bounded (left (inner (bets_region next)))
        then Inl Guarantee_failed
      else if \<not> (steps this \<noteq> [] \<and> steps next \<noteq> []) then Inl Guarantee_failed
      else if \<not> snd (last (steps this)) \<le> snd (hd (steps next)) then Inl Guarantee_failed
      else Inr \<lparr>bets_region =
                   (bets_region this)\<lparr>inner :=
                     (inner (bets_region this))\<lparr>right := right (inner (bets_region next))\<rparr>\<rparr>,
                max_timestamp = max (max_timestamp this) (max_timestamp next),
                steps = steps this @
                  (if snd (last (steps this)) = snd (hd (steps next))
                   then tl (steps next) else steps next)\<rparr>)"

text \<open>Two non-empty maps over adjacent regions, the second continuing the first.\<close>

definition adjacent :: "backfill_end_timestamps \<Rightarrow> backfill_end_timestamps \<Rightarrow> bool" where
  "adjacent a b =
     (\<not> region_is_empty (bets_region a) \<and> \<not> region_is_empty (bets_region b) \<and>
      hash_beg (bets_region a) = hash_beg (bets_region b) \<and>
      hash_end (bets_region a) = hash_end (bets_region b) \<and>
      right (inner (bets_region a)) = Bounded (left (inner (bets_region b))) \<and>
      snd (last (steps a)) \<le> snd (hd (steps b)))"


section \<open>Example values\<close>

text \<open>A map over \<open>[a, e)\<close> backfilled to timestamp 2 on \<open>[a, c)\<close> and to 5 on \<open>[c, e)\<close>.\<close>

definition ex_bets :: backfill_end_timestamps where
  "ex_bets = \<lparr>bets_region = \<lparr>hash_beg = 0, hash_end = 8, inner = \<lparr>left = ''a'', right = Bounded ''e''\<rparr>\<rparr>,
     max_timestamp = 5, steps = [(''a'', 2), (''c'', 5)]\<rparr>"

text \<open>Two adjacent maps: \<open>[a, c)\<close> at timestamp 2, and \<open>[c, e)\<close> at 2 on \<open>[c, d)\<close> and 5 on
  \<open>[d, e)\<close>.\<close>

definition ex_bets_a :: backfill_end_timestamps where
  "ex_bets_a = \<lparr>bets_region = \<lparr>hash_beg = 0, hash_end = 8, inner = \<lparr>left = ''a'', right = Bounded ''c''\<rparr>\<rparr>,
     max_timestamp = 2, steps = [(''a'', 2)]\<rparr>"

definition ex_bets_b :: backfill_end_timestamps where
  "ex_bets_b = \<lparr>bets_region = \<lparr>hash_beg = 0, hash_end = 8, inner = \<lparr>left = ''c'', right = Bounded ''e''\<rparr>\<rparr>,
     max_timestamp = 5, steps = [(''c'', 2), (''d'', 5)]\<rparr>"

section \<open>Region maps and the constructor from a region map\<close>

text \<open>
  Modelled from the spec: \<open>region_map_t\<close>, \<open>version_t\<close> and \<open>backfill_config_t\<close> are
  declared outside the files under verification. A region map is its domain together
  with the pairs (sub-region, value) that \<open>visit\<close> hands to its callback, in
  lexicographical order. A version is a branch with a timestamp. The configuration holds
  the queue size at which the backfill pauses and the trickle fraction.
\<close>

record 'a region_map =
  rm_domain :: region
  rm_pieces :: "(region \<times> 'a) list"

definition get_domain :: "'a region_map \<Rightarrow> region" where
  "get_domain rm = rm_domain rm"

text \<open>\<open>map\<close> over the whole domain: the same pieces with the function applied.\<close>

definition rm_map :: "'a region_map \<Rightarrow> ('a \<Rightarrow> 'b) \<Rightarrow> 'b region_map" where
  "rm_map rm f = \<lparr>rm_domain = rm_domain rm, rm_pieces = map (\<lambda>(reg, v). (reg, f v)) (rm_pieces rm)\<rparr>"

record 'b version =
  branch :: 'b
  v_timestamp :: state_timestamp

record backfill_config =
  write_queue_count :: nat
  write_queue_trickle_fraction :: real

text \<open>The callback of \<open>visit\<close> in the constructor: two debug assertions, then one more
  step.\<close>

fun visit_steps ::
  "bool \<Rightarrow> region \<Rightarrow> (region \<times> state_timestamp) list \<Rightarrow>
   (store_key \<times> state_timestamp) list \<Rightarrow> failure + (store_key \<times> state_timestamp) list" where
  "visit_steps ndebug region [] ss = Inr ss"
| "visit_steps ndebug region ((reg, ts) # rest) ss =
     (if \<not> ndebug \<and> \<not> (hash_beg region = hash_beg reg \<and> hash_end region = hash_end reg)
        then Inl Rassert_failed
      else if \<not> ndebug \<and> \<not> (ss = [] \<or> fst (last ss) < left (inner reg))
        then Inl Rassert_failed
      else visit_steps ndebug region rest (ss @ [(left (inner reg), ts)]))"

definition bets_of_region_map ::
  "bool \<Rightarrow> state_timestamp region_map \<Rightarrow> failure + backfill_end_timestamps" where
  "bets_of_region_map ndebug region_map =
     (case visit_steps ndebug (get_domain region_map) (rm_pieces region_map) [] of
        Inl e \<Rightarrow> Inl e
      | Inr ss \<Rightarrow>
          if ss = [] then Inl Empty_vector
          else Inr \<lparr>bets_region = get_domain region_map,
                    max_timestamp = snd (last ss), steps = ss\<rparr>)"

text \<open>A well-formed region map: every piece has the hash range of the domain, and the
  key ranges of the pieces are non-empty and tile the key range of the domain from left
  to right.\<close>

fun pieces_cover :: "store_key \<Rightarrow> right_bound \<Rightarrow> key_range list \<Rightarrow> bool" where
  "pieces_cover l r [] = False"
| "pieces_cover l r [p] = (left p = l \<and> right p = r \<and> \<not> key_range_is_empty p)"
| "pieces_cover l r (p # q # rest) =
     (left p = l \<and> \<not> key_range_is_empty p \<and>
      (case right p of Unbounded \<Rightarrow> False | Bounded m \<Rightarrow> pieces_cover m r (q # rest)))"

definition region_map_wf :: "'a region_map \<Rightarrow> bool" where
  "region_map_wf rm =
     (list_all (\<lambda>(reg, v). hash_beg reg = hash_beg (rm_domain rm) \<and>
                           hash_end reg = hash_end (rm_domain rm)) (rm_pieces rm) \<and>
      pieces_cover (left (inner (rm_domain rm))) (right (inner (rm_domain rm)))
        (map (\<lambda>(reg, v). inner reg) (rm_pieces rm)))"

section \<open>Queue entries\<close>

text \<open>\<open>queue_entry_t\<close>. The write and the order token are kept abstract; the field \<open>write\<close> is named \<open>the_write\<close>.\<close>

record ('w, 'o) queue_entry =
  has_write :: bool
  the_write :: 'w
  timestamp :: state_timestamp
  order_token :: 'o

section \<open>The backfill callback\<close>

text \<open>\<open>callback_t\<close> of the constructor. The queue is shared with the write handler, so
  \<open>on_progress\<close> takes its current contents as an argument.\<close>

record callback =
  backfill_end_timestamps :: backfill_end_timestamps
  right_bound :: right_bound
  config :: backfill_config
  prog :: int

definition on_progress ::
  "bool \<Rightarrow> 'e list \<Rightarrow> callback \<Rightarrow> 'b version region_map \<Rightarrow> failure + (callback \<times> bool)" where
  "on_progress ndebug q cb chunk =
     (if \<not> ndebug \<and> Bounded (left (inner (get_domain chunk))) \<noteq> right_bound cb
        then Inl Rassert_failed
      else case bets_of_region_map ndebug (rm_map chunk v_timestamp) of
          Inl e \<Rightarrow> Inl e
        | Inr next \<Rightarrow>
            (case combine (backfill_end_timestamps cb) next of
               Inl e \<Rightarrow> Inl e
             | Inr combined \<Rightarrow>
                 Inr (cb\<lparr>right_bound := right (inner (get_domain chunk)),
                         backfill_end_timestamps := combined\<rparr>,
                      length q < write_queue_count (config cb))))"

text \<open>A chunk that continues the callback's progress: a well-formed region map that
  starts at the callback's right bound and, unless one of the two sides is empty, has the
  hash range of the accumulated map and a first timestamp not below its last.\<close>

definition chunk_follows :: "callback \<Rightarrow> 'b version region_map \<Rightarrow> bool" where
  "chunk_follows cb chunk =
     (region_map_wf chunk \<and>
      Bounded (left (inner (rm_domain chunk))) = right_bound cb \<and>
      (region_is_empty (rm_domain chunk) \<or>
       region_is_empty (bets_region (backfill_end_timestamps cb)) \<or>
       (hash_beg (bets_region (backfill_end_timestamps cb)) = hash_beg (rm_domain chunk) \<and>
        hash_end (bets_region (backfill_end_timestamps cb)) = hash_end (rm_domain chunk) \<and>
        right (inner (bets_region (backfill_end_timestamps cb))) =
          Bounded (left (inner (rm_domain chunk))) \<and>
        steps (backfill_end_timestamps cb) \<noteq> [] \<and>
        snd (last (steps (backfill_end_timestamps cb))) \<le>
          v_timestamp (snd (hd (rm_pieces chunk))))))"

definition ex_entry :: "(nat, nat) queue_entry" where
  "ex_entry = \<lparr>has_write = True, the_write = 0, timestamp = 3, order_token = 0\<rparr>"

definition ex_callback :: callback where
  "ex_callback = \<lparr>backfill_end_timestamps = ex_bets_a, right_bound = Bounded ''c'',
     config = \<lparr>write_queue_count = 2, write_queue_trickle_fraction = 1 / 4\<rparr>, prog = 0\<rparr>"

definition ex_chunk :: "nat version region_map" where
  "ex_chunk =
     \<lparr>rm_domain = \<lparr>hash_beg = 0, hash_end = 8, inner = \<lparr>left = ''c'', right = Bounded ''e''\<rparr>\<rparr>,
      rm_pieces =
        [(\<lparr>hash_beg = 0, hash_end = 8, inner = \<lparr>left = ''c'', right = Bounded ''d''\<rparr>\<rparr>,
          \<lparr>branch = 7, v_timestamp = 2\<rparr>),
         (\<lparr>hash_beg = 0, hash_end = 8, inner = \<lparr>left = ''d'', right = Bounded ''e''\<rparr>\<rparr>,
          \<lparr>branch = 7, v_timestamp = 5\<rparr>)]\<rparr>"

section \<open>The state of the constructor\<close>

text \<open>
  The three region fields of the client together with the locals of the constructor's
  loop body: the stream queue, the queue of withheld acknowledgements, the fractional
  accumulator and, as a record of the effects on the conditions, the list of conditions
  pulsed so far. A condition is named by a value of type \<open>'c\<close>. The field \<open>queue_fun\<close>
  says which of the two queue functions of the loop body is installed in \<open>queue_fun_\<close>,
  \<open>None\<close> standing for the null pointer. The accumulator is a
  \<open>double\<close> in the source; the model computes with exact reals.
\<close>

datatype queue_function = Fill | Trickle

record ('w, 'o, 'c) client =
  region_streaming :: region
  region_queueing :: region
  region_discarding :: region
  queue_fun :: "queue_function option"
  queue :: "('w, 'o) queue_entry list"
  ack_queue :: "'c list"
  acks_to_release :: real
  pulsed :: "'c list"

text \<open>The initial assignment: all three regions are the store's region, then the key
  ranges of the streaming and the queueing region are emptied.\<close>

definition init_regions :: "region \<Rightarrow> ('w, 'o, 'c) client" where
  "init_regions store_region =
     \<lparr>region_streaming = store_region\<lparr>inner := key_range_empty\<rparr>,
      region_queueing = store_region\<lparr>inner := key_range_empty\<rparr>,
      region_discarding = store_region,
      queue_fun = None,
      queue = [], ack_queue = [], acks_to_release = 0, pulsed = []\<rparr>"

text \<open>The start of a phase: the queueing region must be empty; it takes over the
  discarding region, whose key range is emptied. A fresh queue is created and the queue
  function of the backfill is installed.\<close>

definition begin_phase :: "('w, 'o, 'c) client \<Rightarrow> failure + ('w, 'o, 'c) client" where
  "begin_phase st =
     (if \<not> key_range_is_empty (inner (region_queueing st)) then Inl Guarantee_failed
      else Inr (st\<lparr>region_queueing := region_discarding st,
                   region_discarding := (region_discarding st)\<lparr>inner := key_range_empty\<rparr>,
                   queue := [], queue_fun := Some Fill\<rparr>))"

text \<open>The queue function of the backfill: the entry is queued and the condition is pulsed
  at once.\<close>

definition queue_fun_fill ::
  "('w, 'o) queue_entry \<Rightarrow> 'c \<Rightarrow> ('w, 'o, 'c) client \<Rightarrow> ('w, 'o, 'c) client" where
  "queue_fun_fill entry ack st = st\<lparr>queue := queue st @ [entry], pulsed := pulsed st @ [ack]\<rparr>"

text \<open>The end of the backfill: the queueing region is cut at the right bound the callback
  reached, and the discarding region becomes what lies to the right of it. Then the
  acknowledgement queue and the accumulator of the drain are created and the queue
  function of the drain is installed.\<close>

definition end_phase ::
  "region \<Rightarrow> right_bound \<Rightarrow> ('w, 'o, 'c) client \<Rightarrow> ('w, 'o, 'c) client" where
  "end_phase store_region rb st =
     st\<lparr>region_queueing :=
          (region_queueing st)\<lparr>inner := (inner (region_queueing st))\<lparr>right := rb\<rparr>\<rparr>,
        region_discarding :=
          (case rb of
             Unbounded \<Rightarrow> region_empty
           | Bounded k \<Rightarrow>
               (region_discarding st)\<lparr>inner :=
                  (inner (region_discarding st))\<lparr>left := k, right := right (inner store_region)\<rparr>\<rparr>),
        ack_queue := [], acks_to_release := 0, queue_fun := Some Trickle\<rparr>"

text \<open>The queue function of the drain: the entry is queued; the condition is pulsed when
  the accumulator holds a whole acknowledgement and is withheld otherwise.\<close>

definition queue_fun_trickle ::
  "('w, 'o) queue_entry \<Rightarrow> 'c \<Rightarrow> ('w, 'o, 'c) client \<Rightarrow> ('w, 'o, 'c) client" where
  "queue_fun_trickle entry ack st =
     (let st1 = st\<lparr>queue := queue st @ [entry]\<rparr> in
      if acks_to_release st1 \<ge> 1
      then st1\<lparr>acks_to_release := acks_to_release st1 - 1, pulsed := pulsed st1 @ [ack]\<rparr>
      else st1\<lparr>ack_queue := ack_queue st1 @ [ack]\<rparr>)"

text \<open>The part of the write handler that hands a queue entry to the installed queue
  function, and pulses the throttling condition itself when none is installed.\<close>

definition call_queue_fun ::
  "('w, 'o) queue_entry \<Rightarrow> 'c \<Rightarrow> ('w, 'o, 'c) client \<Rightarrow> ('w, 'o, 'c) client" where
  "call_queue_fun entry queue_throttler st =
     (case queue_fun st of
        None \<Rightarrow> st\<lparr>pulsed := pulsed st @ [queue_throttler]\<rparr>
      | Some Fill \<Rightarrow> queue_fun_fill entry queue_throttler st
      | Some Trickle \<Rightarrow> queue_fun_trickle entry queue_throttler st)"

text \<open>The callback run after each drained entry.\<close>

definition on_finished_one_entry ::
  "backfill_config \<Rightarrow> ('w, 'o, 'c) client \<Rightarrow> ('w, 'o, 'c) client" where
  "on_finished_one_entry cfg st =
     (let st1 = st\<lparr>acks_to_release := acks_to_release st + write_queue_trickle_fraction cfg\<rparr> in
      if acks_to_release st1 \<ge> 1 \<and> ack_queue st1 \<noteq> []
      then st1\<lparr>acks_to_release := acks_to_release st1 - 1,
               pulsed := pulsed st1 @ [hd (ack_queue st1)],
               ack_queue := tl (ack_queue st1)\<rparr>
      else st1)"

text \<open>The loop that releases what is left in the acknowledgement queue.\<close>

function release_remaining :: "('w, 'o, 'c) client \<Rightarrow> ('w, 'o, 'c) client" where
  "release_remaining st =
     (if ack_queue st \<noteq> []
      then release_remaining
             (st\<lparr>pulsed := pulsed st @ [hd (ack_queue st)], ack_queue := tl (ack_queue st)\<rparr>)
      else st)"
  by pat_completeness auto
termination
  by (relation "measure (\<lambda>st. length (ack_queue st))") auto

declare release_remaining.simps [simp del]

text \<open>The promotion at the end of a phase.\<close>

definition promote :: "('w, 'o, 'c) client \<Rightarrow> ('w, 'o, 'c) client" where
  "promote st =
     st\<lparr>region_streaming :=
          (region_streaming st)\<lparr>inner :=
             (inner (region_streaming st))\<lparr>right := right (inner (region_queueing st))\<rparr>\<rparr>,
        region_queueing := (region_queueing st)\<lparr>inner := key_range_empty\<rparr>\<rparr>"

text \<open>What the loop body does once \<open>drain_stream_queue\<close> has returned: the queue must be
  empty; the remaining acknowledgements are released; the queueing region is promoted;
  leaving the loop body uninstalls the queue function.\<close>

definition finish_phase :: "('w, 'o, 'c) client \<Rightarrow> failure + ('w, 'o, 'c) client" where
  "finish_phase st =
     (if queue st \<noteq> [] then Inl Guarantee_failed
      else Inr ((promote (release_remaining st))\<lparr>queue_fun := None\<rparr>))"

text \<open>The events of a drain that touch the acknowledgements: a write is queued by the
  write handler, or a drained entry has been written to the store.\<close>

datatype ('w, 'o, 'c) drain_event =
  Enqueue "('w, 'o) queue_entry" 'c
| Finished_one_entry

fun drain_step ::
  "backfill_config \<Rightarrow> ('w, 'o, 'c) drain_event \<Rightarrow> ('w, 'o, 'c) client \<Rightarrow> ('w, 'o, 'c) client" where
  "drain_step cfg (Enqueue entry ack) st = call_queue_fun entry ack st"
| "drain_step cfg Finished_one_entry st = on_finished_one_entry cfg st"

fun drain_events ::
  "backfill_config \<Rightarrow> ('w, 'o, 'c) drain_event list \<Rightarrow> ('w, 'o, 'c) client \<Rightarrow> ('w, 'o, 'c) client" where
  "drain_events cfg [] st = st"
| "drain_events cfg (ev # evs) st = drain_events cfg evs (drain_step cfg ev st)"

fun is_finished :: "('w, 'o, 'c) drain_event \<Rightarrow> bool" where
  "is_finished Finished_one_entry = True"
| "is_finished (Enqueue _ _) = False"

definition drained :: "('w, 'o, 'c) drain_event list \<Rightarrow> nat" where
  "drained evs = length (filter is_finished evs)"

text \<open>The partition of the store's region into the three regions: every key of the
  store's region lies in exactly one of them and no other key lies in any, and the keys
  of the streaming region come before those of the queueing region, which come before
  those of the discarding region.\<close>

definition partition_ok ::
  "(store_key \<Rightarrow> 64 word) \<Rightarrow> region \<Rightarrow> ('w, 'o, 'c) client \<Rightarrow> bool" where
  "partition_ok h store_region st =
     ((\<forall>k. region_contains_key h store_region k \<longleftrightarrow>
            region_contains_key h (region_streaming st) k \<or>
            region_contains_key h (region_queueing st) k \<or>
            region_contains_key h (region_discarding st) k) \<and>
      (\<forall>k. \<not> (region_contains_key h (region_streaming st) k \<and>
                region_contains_key h (region_queueing st) k) \<and>
           \<not> (region_contains_key h (region_streaming st) k \<and>
                region_contains_key h (region_discarding st) k) \<and>
           \<not> (region_contains_key h (region_queueing st) k \<and>
                region_contains_key h (region_discarding st) k)) \<and>
      (\<forall>k k'. region_contains_key h (region_streaming st) k \<and>
               region_contains_key h (region_queueing st) k' \<longrightarrow> k < k') \<and>
      (\<forall>k k'. region_contains_key h (region_streaming st) k \<and>
               region_contains_key h (region_discarding st) k' \<longrightarrow> k < k') \<and>
      (\<forall>k k'. region_contains_key h (region_queueing st) k \<and>
               region_contains_key h (region_discarding st) k' \<longrightarrow> k < k'))"


text \<open>A store region \<open>[b, e)\<close>, a configuration with trickle fraction one quarter, and a
  drain in which one write is queued, five entries finish and another write is queued.\<close>

definition ex_store_region :: region where
  "ex_store_region = \<lparr>hash_beg = 0, hash_end = 8, inner = \<lparr>left = ''b'', right = Bounded ''e''\<rparr>\<rparr>"

definition ex_config :: backfill_config where
  "ex_config = \<lparr>write_queue_count = 2, write_queue_trickle_fraction = 1 / 4\<rparr>"

definition ex_events :: "(nat, nat, nat) drain_event list" where
  "ex_events =
     [Enqueue ex_entry 1, Finished_one_entry, Finished_one_entry, Finished_one_entry,
      Finished_one_entry, Finished_one_entry, Enqueue ex_entry 2]"

definition ex_client :: "(nat, nat, nat) client" where
  "ex_client = init_regions ex_store_region"

text \<open>The example client in a backfill phase, at the start of the drain over \<open>[b, c)\<close>,
  with a whole acknowledgement in the accumulator, and after the drain with one
  condition still withheld.\<close>

definition ex_fill :: "(nat, nat, nat) client" where
  "ex_fill = (case begin_phase ex_client of Inr s \<Rightarrow> s | Inl e \<Rightarrow> ex_client)"

definition ex_drain :: "(nat, nat, nat) client" where
  "ex_drain = end_phase ex_store_region (Bounded ''c'') ex_fill"

definition ex_ready :: "(nat, nat, nat) client" where
  "ex_ready =
     drain_events ex_config
       [Finished_one_entry, Finished_one_entry, Finished_one_entry, Finished_one_entry] ex_drain"

definition ex_drained :: "(nat, nat, nat) client" where
  "ex_drained = (call_queue_fun ex_entry 2 ex_drain)\<lparr>queue := []\<rparr>"

section \<open>Waiting for a table to be ready\<close>

text \<open>
  Modelled from the spec: \<open>table_readiness_t\<close>, \<open>table_wait_result_t\<close>,
  \<open>convert_table_id_to_datums\<close>, \<open>calculate_status\<close> and \<open>nap\<close> are declared outside the
  files under verification. The readiness levels are ordered as the comparisons in
  \<open>convert_table_status_to_datum\<close> use them. One pass of the polling loop observes what
  the three callees do: the lookup of the table yields the name of its database or
  fails; the status calculation yields a readiness or raises one of the two exceptions
  that \<open>format_row\<close> declares for it; the nap ends normally or is interrupted.
\<close>

datatype table_readiness = unavailable | outdated_reads | reads | writes | finished

fun readiness_rank :: "table_readiness \<Rightarrow> nat" where
  "readiness_rank unavailable = 0"
| "readiness_rank outdated_reads = 1"
| "readiness_rank reads = 2"
| "readiness_rank writes = 3"
| "readiness_rank finished = 4"

datatype table_wait_result = WAITED | IMMEDIATE | DELETED

datatype exc = Interrupted_exc

datatype status_outcome =
  Status table_readiness
| No_such_table_exc
| Status_interrupted

record attempt =
  table_lookup :: "string option"
  status :: status_outcome
  nap_interrupted :: bool

definition initial_poll_ms :: "32 word" where
  "initial_poll_ms = 50"

definition max_poll_ms :: "32 word" where
  "max_poll_ms = 10000"

text \<open>The polling loop over the observations of its passes. It returns the result or the
  exception together with the lengths of the naps taken; \<open>None\<close> says that the loop is
  still running when the observations end.\<close>

fun wait_loop ::
  "bool \<Rightarrow> 32 word \<Rightarrow> table_readiness \<Rightarrow> 32 word list \<Rightarrow> attempt list \<Rightarrow>
   ((exc + table_wait_result) \<times> 32 word list) option" where
  "wait_loop immediate current_poll_ms wait_readiness naps [] = None"
| "wait_loop immediate current_poll_ms wait_readiness naps (a # rest) =
     (case table_lookup a of
        None \<Rightarrow> Some (Inr DELETED, naps)
      | Some db_name \<Rightarrow>
          if db_name = ''__deleted_database__'' then Some (Inr DELETED, naps)
          else (case status a of
              No_such_table_exc \<Rightarrow> Some (Inr DELETED, naps)
            | Status_interrupted \<Rightarrow> Some (Inl Interrupted_exc, naps)
            | Status readiness \<Rightarrow>
                if readiness_rank readiness \<ge> readiness_rank wait_readiness
                then Some (Inr (if immediate then IMMEDIATE else WAITED), naps)
                else if nap_interrupted a then Some (Inl Interrupted_exc, naps)
                else wait_loop False (min max_poll_ms (current_poll_ms * 2)) wait_readiness
                       (naps @ [current_poll_ms]) rest))"

definition wait_for_table_readiness ::
  "table_readiness \<Rightarrow> attempt list \<Rightarrow> ((exc + table_wait_result) \<times> 32 word list) option" where
  "wait_for_table_readiness wait_readiness attempts =
     wait_loop True initial_poll_ms wait_readiness [] attempts"

text \<open>The naps of \<open>n\<close> passes that start with the given length: each is twice the one
  before, up to the maximum.\<close>

fun poll_seq :: "32 word \<Rightarrow> nat \<Rightarrow> 32 word list" where
  "poll_seq p 0 = []"
| "poll_seq p (Suc n) = p # poll_seq (min max_poll_ms (p * 2)) n"

text \<open>What a pass observes. In a pending pass the table is found but not ready, and the
  nap ends normally. The table or its database counts as deleted when the lookup fails
  or names the deleted database. A pass sees no such table when the table or its
  database is deleted or the status calculation raises the exception. In a ready pass
  the table is found and ready.\<close>

definition found :: "attempt \<Rightarrow> bool" where
  "found a = (case table_lookup a of None \<Rightarrow> False | Some db \<Rightarrow> db \<noteq> ''__deleted_database__'')"

definition deleted :: "attempt \<Rightarrow> bool" where
  "deleted a = (\<not> found a)"

definition no_such_table :: "attempt \<Rightarrow> bool" where
  "no_such_table a = (deleted a \<or> status a = No_such_table_exc)"

definition ready :: "table_readiness \<Rightarrow> attempt \<Rightarrow> bool" where
  "ready w a =
     (found a \<and>
      (case status a of Status r \<Rightarrow> readiness_rank w \<le> readiness_rank r | _ \<Rightarrow> False))"

definition pending :: "table_readiness \<Rightarrow> attempt \<Rightarrow> bool" where
  "pending w a =
     (found a \<and> \<not> nap_interrupted a \<and>
      (case status a of Status r \<Rightarrow> readiness_rank r < readiness_rank w | _ \<Rightarrow> False))"

definition interrupted :: "table_readiness \<Rightarrow> attempt \<Rightarrow> bool" where
  "interrupted w a =
     (found a \<and>
      (case status a of
         Status r \<Rightarrow> readiness_rank r < readiness_rank w \<and> nap_interrupted a
       | Status_interrupted \<Rightarrow> True
       | No_such_table_exc \<Rightarrow> False))"

text \<open>The result of the first pass that is not pending.\<close>

definition outcome :: "bool \<Rightarrow> table_readiness \<Rightarrow> attempt \<Rightarrow> exc + table_wait_result" where
  "outcome immediate w a =
     (if no_such_table a then Inr DELETED
      else if ready w a then Inr (if immediate then IMMEDIATE else WAITED)
      else Inl Interrupted_exc)"

text \<open>Example passes: the table is found but only readable for outdated reads; the table
  is found and ready for writes; the table is found but the status calculation raises
  the no-such-table exception; the lookup fails.\<close>

definition ex_pending :: attempt where
  "ex_pending = \<lparr>table_lookup = Some ''test'', status = Status outdated_reads, nap_interrupted = False\<rparr>"

definition ex_ready_pass :: attempt where
  "ex_ready_pass = \<lparr>table_lookup = Some ''test'', status = Status writes, nap_interrupted = False\<rparr>"

definition ex_vanished :: attempt where
  "ex_vanished = \<lparr>table_lookup = Some ''test'', status = No_such_table_exc, nap_interrupted = False\<rparr>"

definition ex_unresolved :: attempt where
  "ex_unresolved = \<lparr>table_lookup = None, status = Status finished, nap_interrupted = False\<rparr>"


section \<open>Writes and the store\<close>

text \<open>
  Modelled from the spec: \<open>write_t\<close> with \<open>shard\<close>, and \<open>store_view_t\<close> with
  \<open>new_write_token\<close>, \<open>write\<close> and \<open>set_metainfo\<close>, are declared outside the files under
  verification. A write is a list of operations, each on one key. Sharding restricts a
  write to the operations whose key lies in a region and fails when none is left. The
  store keeps, for every key, the operations applied to it in the order of application,
  each with the timestamp of its write, so that applying a write a second time or out of
  order shows in the store; it also keeps the version last recorded for every key and the
  number of write tokens handed out. Writes reach the store in the order of their
  tokens; the model applies a write when its token is taken.
\<close>

type_synonym 'v write_t = "(store_key \<times> 'v) list"

definition shard ::
  "(store_key \<Rightarrow> 64 word) \<Rightarrow> region \<Rightarrow> 'v write_t \<Rightarrow> 'v write_t option" where
  "shard h reg w =
     (let sub = filter (\<lambda>op. region_contains_key h reg (fst op)) w
      in if sub = [] then None else Some sub)"

record ('b, 'v) store =
  applied :: "store_key \<Rightarrow> (state_timestamp \<times> 'v) list"
  metainfo :: "store_key \<Rightarrow> 'b version option"
  write_tokens :: nat

definition new_write_token :: "('b, 'v) store \<Rightarrow> nat \<times> ('b, 'v) store" where
  "new_write_token s = (write_tokens s, s\<lparr>write_tokens := Suc (write_tokens s)\<rparr>)"

text \<open>The operations of a write on one key, stamped with the timestamp of the write.\<close>

definition ops_at :: "store_key \<Rightarrow> state_timestamp \<Rightarrow> 'v write_t \<Rightarrow> (state_timestamp \<times> 'v) list" where
  "ops_at k ts w = map (\<lambda>op. (ts, snd op)) (filter (\<lambda>op. fst op = k) w)"

definition store_set_metainfo ::
  "(store_key \<Rightarrow> 64 word) \<Rightarrow> region \<Rightarrow> 'b version \<Rightarrow> ('b, 'v) store \<Rightarrow> ('b, 'v) store" where
  "store_set_metainfo h reg v s =
     s\<lparr>metainfo := (\<lambda>k. if region_contains_key h reg k then Some v else metainfo s k)\<rparr>"

definition store_write ::
  "(store_key \<Rightarrow> 64 word) \<Rightarrow> region \<Rightarrow> 'b version \<Rightarrow> 'v write_t \<Rightarrow> state_timestamp \<Rightarrow>
   ('b, 'v) store \<Rightarrow> ('b, 'v) store" where
  "store_write h reg v w ts s =
     (store_set_metainfo h reg v s)\<lparr>applied := (\<lambda>k. applied s k @ ops_at k ts w)\<rparr>"

text \<open>\<open>apply_write_or_metainfo\<close>. The metainfo checker of debug builds is left out.\<close>

definition apply_write_or_metainfo ::
  "(store_key \<Rightarrow> 64 word) \<Rightarrow> 'b \<Rightarrow> region \<Rightarrow> bool \<Rightarrow> 'v write_t \<Rightarrow> state_timestamp \<Rightarrow>
   ('b, 'v) store \<Rightarrow> ('b, 'v) store" where
  "apply_write_or_metainfo h branch_id reg has_w w ts s =
     (let new_metainfo = \<lparr>branch = branch_id, v_timestamp = ts\<rparr> in
      if has_w then store_write h reg new_metainfo w ts s
      else store_set_metainfo h reg new_metainfo s)"

section \<open>The write handler during construction and one pass of the drainer\<close>

text \<open>The branch of \<open>on_write_async\<close> taken while the replica does not exist yet, from the
  point where the handler holds the lock. The write is sharded for the streaming region
  and a token is taken if that region is not empty; an entry with the shard for the
  queueing region goes to the installed queue function; then the streaming shard is
  applied. The order checkpoint is the parameter \<open>check_through\<close>.\<close>

definition on_write_async ::
  "(store_key \<Rightarrow> 64 word) \<Rightarrow> bool \<Rightarrow> ('o \<Rightarrow> 'o) \<Rightarrow> 'b \<Rightarrow>
   'v write_t \<Rightarrow> state_timestamp \<Rightarrow> 'o \<Rightarrow> 'c \<Rightarrow>
   ('v write_t, 'o, 'c) client \<times> ('b, 'v) store \<Rightarrow>
   failure + ('v write_t, 'o, 'c) client \<times> ('b, 'v) store" where
  "on_write_async h ndebug check_through branch_id w ts tok queue_throttler cs =
     (let c = fst cs; s = snd cs;
          region_streaming_copy = region_streaming c;
          subwrite_streaming = shard h (region_streaming c) w;
          s1 = (if \<not> region_is_empty region_streaming_copy then snd (new_write_token s) else s)
      in if queue_fun c \<noteq> None \<and> \<not> ndebug \<and> region_is_empty (region_queueing c)
         then Inl Rassert_failed
         else
           (let queue_entry =
                  \<lparr>has_write = (shard h (region_queueing c) w \<noteq> None),
                   the_write = (case shard h (region_queueing c) w of None \<Rightarrow> [] | Some sub \<Rightarrow> sub),
                   timestamp = ts,
                   order_token = check_through tok\<rparr>;
                c1 = call_queue_fun queue_entry queue_throttler c;
                s2 = (if \<not> region_is_empty region_streaming_copy
                      then apply_write_or_metainfo h branch_id region_streaming_copy
                             (subwrite_streaming \<noteq> None)
                             (case subwrite_streaming of None \<Rightarrow> [] | Some sub \<Rightarrow> sub) ts s1
                      else s1)
            in Inr (c1, s2)))"

text \<open>One pass of the loop of \<open>drain_stream_queue\<close> with a non-empty queue, together with
  the store operation of the task it spawns: the front entry is popped and clipped to the
  region for its timestamp, a token is taken, and the write or the metainfo is applied
  to that region.\<close>

definition drain_one ::
  "(store_key \<Rightarrow> 64 word) \<Rightarrow> 'b \<Rightarrow> backfill_end_timestamps \<Rightarrow>
   ('v write_t, 'o, 'c) client \<times> ('b, 'v) store \<Rightarrow> ('v write_t, 'o, 'c) client \<times> ('b, 'v) store" where
  "drain_one h branch_id bets cs =
     (let c = fst cs; s = snd cs in
      case queue c of
        [] \<Rightarrow> cs
      | entry # rest \<Rightarrow>
          (let applicable_region = region_for_timestamp bets (timestamp entry);
               entry1 =
                 (if has_write entry
                  then (case shard h applicable_region (the_write entry) of
                          Some subwrite \<Rightarrow> entry\<lparr>the_write := subwrite\<rparr>
                        | None \<Rightarrow> entry\<lparr>has_write := False\<rparr>)
                  else entry);
               s1 = snd (new_write_token s)
           in (c\<lparr>queue := rest\<rparr>,
               apply_write_or_metainfo h branch_id applicable_region
                 (has_write entry1) (the_write entry1) (timestamp entry1) s1)))"


section \<open>Runs of the write handler and the drainer\<close>

text \<open>What happens to the client and the store while the constructor runs, in the order
  in which it happens: the write handler processes a write, the drainer makes one pass,
  or a drained entry is reported as finished. Tasks run one at a time between their
  suspension points, so a run is a sequence of such events.\<close>

datatype ('v, 'o, 'c) event =
  Write_async "'v write_t" state_timestamp 'o 'c
| Pop
| Finished

text \<open>What stays fixed during a run: the hash function, the build flag, the order
  checkpoint, the branch and the configuration.\<close>

record ('b, 'o) env =
  env_hasher :: "store_key \<Rightarrow> 64 word"
  env_ndebug :: bool
  env_check_through :: "'o \<Rightarrow> 'o"
  env_branch :: 'b
  env_config :: backfill_config

fun step ::
  "('b, 'o) env \<Rightarrow> backfill_end_timestamps \<Rightarrow> ('v, 'o, 'c) event \<Rightarrow>
   ('v write_t, 'o, 'c) client \<times> ('b, 'v) store \<Rightarrow>
   failure + ('v write_t, 'o, 'c) client \<times> ('b, 'v) store" where
  "step e bets (Write_async w ts tok queue_throttler) cs =
     on_write_async (env_hasher e) (env_ndebug e) (env_check_through e) (env_branch e)
       w ts tok queue_throttler cs"
| "step e bets Pop cs = Inr (drain_one (env_hasher e) (env_branch e) bets cs)"
| "step e bets Finished cs = Inr (on_finished_one_entry (env_config e) (fst cs), snd cs)"



text \<open>What a key holds when each write of a sequence has been applied to it once, in the
  order of the sequence.\<close>

definition hist :: "(state_timestamp \<times> 'v write_t) list \<Rightarrow> store_key \<Rightarrow> (state_timestamp \<times> 'v) list" where
  "hist ws k = concat (map (\<lambda>tw. ops_at k (fst tw) (snd tw)) ws)"





section \<open>The phases of the constructor\<close>
















section \<open>Properties of \<open>region_for_timestamp\<close>\<close>

lemma key_below_trans: "k < k' \<Longrightarrow> key_below k' rb \<Longrightarrow> key_below k rb"
  by (cases rb) auto

lemma rft_loop_hash [simp]:
  "hash_beg (region_for_timestamp_loop r ss t) = hash_beg r"
  "hash_end (region_for_timestamp_loop r ss t) = hash_end r"
  "left (inner (region_for_timestamp_loop r ss t)) = left (inner r)"
  by (induction ss) auto

lemma rft_loop_above:
  assumes "\<forall>s \<in> set ss. k < fst s" "list_all (\<lambda>s. key_below (fst s) (right (inner r))) ss"
  shows "contains_key (inner (region_for_timestamp_loop r ss t)) k = contains_key (inner r) k"
  using assms
  by (induction ss) (auto simp: contains_key_def dest: key_below_trans)

lemma timestamp_at_Cons:
  "fst s \<le> k \<Longrightarrow> timestamp_at (s # ss) k =
     (if ss \<noteq> [] \<and> fst (hd ss) \<le> k then timestamp_at ss k else snd s)"
  by (cases ss) (auto simp: timestamp_at_def)

lemma timestamp_at_ge_hd:
  assumes "sorted_wrt (\<le>) (map snd ss)" "ss \<noteq> []" "fst (hd ss) \<le> k"
  shows "snd (hd ss) \<le> timestamp_at ss k"
  using assms
proof (induction ss)
  case Nil then show ?case by simp
next
  case (Cons s ss)
  show ?case
  proof (cases "ss \<noteq> [] \<and> fst (hd ss) \<le> k")
    case True
    with Cons have a: "snd (hd ss) \<le> timestamp_at ss k" by simp
    from True Cons.prems have b: "snd s \<le> snd (hd ss)" by (cases ss) auto
    have "snd s \<le> timestamp_at ss k" using order_trans[OF b a] .
    then show ?thesis using True Cons.prems by (simp add: timestamp_at_Cons)
  next
    case False
    then show ?thesis using Cons.prems by (auto simp add: timestamp_at_Cons)
  qed
qed

lemma rft_loop_contains:
  assumes "sorted_wrt (<) (map fst ss)" "sorted_wrt (\<le>) (map snd ss)"
    "list_all (\<lambda>s. key_below (fst s) (right (inner r))) ss" "ss \<noteq> []" "fst (hd ss) \<le> k"
  shows "contains_key (inner (region_for_timestamp_loop r ss t)) k \<longleftrightarrow>
         contains_key (inner r) k \<and> timestamp_at ss k < t"
  using assms
proof (induction ss)
  case Nil then show ?case by simp
next
  case (Cons s ss)
  show ?case
  proof (cases "t \<le> snd s")
    case True
    have "snd s \<le> timestamp_at (s # ss) k"
      using timestamp_at_ge_hd[of "s # ss" k] Cons.prems by simp
    with True have "\<not> timestamp_at (s # ss) k < t" by simp
    moreover have "\<not> contains_key (inner (region_for_timestamp_loop r (s # ss) t)) k"
      using True Cons.prems by (auto simp add: contains_key_def dest: leD)
    ultimately show ?thesis by blast
  next
    case False
    show ?thesis
    proof (cases "ss \<noteq> [] \<and> fst (hd ss) \<le> k")
      case True
      then show ?thesis using False Cons by (simp add: timestamp_at_Cons)
    next
      case F2: False
      have "\<forall>s' \<in> set ss. k < fst s'"
      proof
        fix s' assume s': "s' \<in> set ss"
        then have ne: "ss \<noteq> []" by auto
        with F2 have "k < fst (hd ss)" by simp
        moreover have "fst (hd ss) \<le> fst s'"
          using Cons.prems(1) s' ne by (cases ss) auto
        ultimately show "k < fst s'" by simp
      qed
      then have "contains_key (inner (region_for_timestamp_loop r ss t)) k = contains_key (inner r) k"
        using rft_loop_above Cons.prems by simp
      then show ?thesis using False F2 Cons.prems by (auto simp add: timestamp_at_Cons)
    qed
  qed
qed


lemma find_rft_loop_Some:
  "find (\<lambda>s. t \<le> snd s) ss = Some s \<Longrightarrow>
   region_for_timestamp_loop r ss t = r\<lparr>inner := (inner r)\<lparr>right := Bounded (fst s)\<rparr>\<rparr>"
  by (induction ss) (auto split: if_splits)

lemma find_rft_loop_None:
  "find (\<lambda>s. t \<le> snd s) ss = None \<Longrightarrow> region_for_timestamp_loop r ss t = r"
  by (induction ss) (auto split: if_splits)

lemma region_for_timestamp_contains:
  assumes "bets_wf b"
  shows "region_contains_key h (region_for_timestamp b t) k \<longleftrightarrow>
         region_contains_key h (bets_region b) k \<and> timestamp_at (steps b) k < t"
proof -
  let ?r = "bets_region b" and ?ss = "steps b"
  from assms have wf: "?ss \<noteq> []" "fst (hd ?ss) = left (inner ?r)"
    "sorted_wrt (<) (map fst ?ss)" "list_all (\<lambda>s. key_below (fst s) (right (inner ?r))) ?ss"
    "sorted_wrt (\<le>) (map snd ?ss)"
    by (simp_all add: bets_wf_def steps_wf_def)
  show ?thesis
  proof (cases "left (inner ?r) \<le> k")
    case True
    with wf have "fst (hd ?ss) \<le> k" by simp
    from rft_loop_contains[OF wf(3) wf(5) wf(4) wf(1) this, of t]
    show ?thesis by (auto simp: region_contains_key_def region_for_timestamp_def)
  next
    case False
    then show ?thesis
      by (simp add: region_contains_key_def region_for_timestamp_def contains_key_def)
  qed
qed

text \<open>
  Claim C2. For a well-formed backfill end-timestamp map (steps strictly ascending by left
  key from the left end of the region, timestamps never decreasing) and any timestamp
  \<open>t\<close>, \<open>region_for_timestamp\<close> keeps the hash range and the left key of the map's region
  and contains exactly the keys of that region whose backfill timestamp is below \<open>t\<close>.
  When the first step's timestamp is at least \<open>t\<close> the result is empty. The right bound
  of the result is the left key of the first step whose timestamp is at least \<open>t\<close>, and
  the whole region is returned when there is no such step.
\<close>

theorem region_for_timestamp_prefix:
  assumes "bets_wf b"
  shows "hash_beg (region_for_timestamp b t) = hash_beg (bets_region b) \<and>
         hash_end (region_for_timestamp b t) = hash_end (bets_region b) \<and>
         left (inner (region_for_timestamp b t)) = left (inner (bets_region b)) \<and>
         (\<forall>k. region_contains_key h (region_for_timestamp b t) k \<longleftrightarrow>
              region_contains_key h (bets_region b) k \<and> timestamp_at (steps b) k < t) \<and>
         (t \<le> snd (hd (steps b)) \<longrightarrow> region_is_empty (region_for_timestamp b t)) \<and>
         (\<forall>s. find (\<lambda>s. t \<le> snd s) (steps b) = Some s \<longrightarrow>
              right (inner (region_for_timestamp b t)) = Bounded (fst s)) \<and>
         (find (\<lambda>s. t \<le> snd s) (steps b) = None \<longrightarrow>
              region_for_timestamp b t = bets_region b)"
proof -
  let ?r = "bets_region b" and ?ss = "steps b"
  from assms have wf: "?ss \<noteq> []" "fst (hd ?ss) = left (inner ?r)"
    "sorted_wrt (<) (map fst ?ss)" "list_all (\<lambda>s. key_below (fst s) (right (inner ?r))) ?ss"
    "sorted_wrt (\<le>) (map snd ?ss)"
    by (simp_all add: bets_wf_def steps_wf_def)
  have mem: "region_contains_key h (region_for_timestamp b t) k \<longleftrightarrow>
             region_contains_key h ?r k \<and> timestamp_at ?ss k < t" for k
    using region_for_timestamp_contains[OF assms] .
  have emp: "region_is_empty (region_for_timestamp b t)" if "t \<le> snd (hd ?ss)"
    using that wf(1,2)
    by (cases ?ss)
       (simp_all add: region_for_timestamp_def region_is_empty_def key_range_is_empty_def)
  have some: "right (inner (region_for_timestamp b t)) = Bounded (fst s)"
    if "find (\<lambda>s. t \<le> snd s) ?ss = Some s" for s
    using find_rft_loop_Some[OF that] by (simp add: region_for_timestamp_def)
  have none: "region_for_timestamp b t = ?r" if "find (\<lambda>s. t \<le> snd s) ?ss = None"
    using find_rft_loop_None[OF that] by (simp add: region_for_timestamp_def)
  show ?thesis using mem emp some none by (simp add: region_for_timestamp_def)
qed

text \<open>The theorem at the example map, for the timestamps 2, 4 and 6.\<close>

theorem region_for_timestamp_prefix_witness:
  "bets_wf ex_bets \<and>
   region_is_empty (region_for_timestamp ex_bets 2) \<and>
   right (inner (region_for_timestamp ex_bets 4)) = Bounded ''c'' \<and>
   region_contains_key (\<lambda>_. 3) (region_for_timestamp ex_bets 4) ''b'' \<and>
   \<not> region_contains_key (\<lambda>_. 3) (region_for_timestamp ex_bets 4) ''d'' \<and>
   region_for_timestamp ex_bets 6 = bets_region ex_bets"
proof -
  have wf: "bets_wf ex_bets"
    by (simp add: bets_wf_def steps_wf_def ex_bets_def)
  have b: "region_contains_key (\<lambda>_. 3) (bets_region ex_bets) ''b'' \<and> timestamp_at (steps ex_bets) ''b'' < 4"
    by (simp add: ex_bets_def region_contains_key_def contains_key_def timestamp_at_def)
  have d: "\<not> timestamp_at (steps ex_bets) ''d'' < 4"
    by (simp add: ex_bets_def timestamp_at_def)
  have f4: "find (\<lambda>s. 4 \<le> snd s) (steps ex_bets) = Some (''c'', 5)"
    by (simp add: ex_bets_def)
  have f6: "find (\<lambda>s. 6 \<le> snd s) (steps ex_bets) = None"
    by (simp add: ex_bets_def)
  have h2: "2 \<le> snd (hd (steps ex_bets))"
    by (simp add: ex_bets_def)
  show ?thesis
    using wf b d f4 f6 h2
      region_for_timestamp_prefix[OF wf, where h = "\<lambda>_. 3" and t = 2]
      region_for_timestamp_prefix[OF wf, where h = "\<lambda>_. 3" and t = 4]
      region_for_timestamp_prefix[OF wf, where h = "\<lambda>_. 3" and t = 6]
    by auto
qed



section \<open>Properties of \<open>combine\<close>\<close>

lemma rft_loop_right:
  "right (inner (region_for_timestamp_loop r ss t)) =
     (case find (\<lambda>s. t \<le> snd s) ss of None \<Rightarrow> right (inner r) | Some s \<Rightarrow> Bounded (fst s))"
  by (induction ss) auto

lemma region_contains_rft:
  "region_contains_key h (region_for_timestamp b t) k \<longleftrightarrow>
     hash_beg (bets_region b) \<le> h k \<and> h k < hash_end (bets_region b) \<and>
     left (inner (bets_region b)) \<le> k \<and>
     key_below k (case find (\<lambda>s. t \<le> snd s) (steps b) of
                    None \<Rightarrow> right (inner (bets_region b)) | Some s \<Rightarrow> Bounded (fst s))"
  by (simp add: region_contains_key_def contains_key_def region_for_timestamp_def rft_loop_right)

lemma sorted_hd_le:
  fixes ss :: "(store_key \<times> state_timestamp) list"
  shows "sorted_wrt (<) (map fst ss) \<Longrightarrow> s \<in> set ss \<Longrightarrow> fst (hd ss) \<le> fst s"
  by (cases ss) auto

lemma sorted_le_last:
  fixes ss :: "(store_key \<times> state_timestamp) list"
  shows "sorted_wrt (\<le>) (map snd ss) \<Longrightarrow> s \<in> set ss \<Longrightarrow> snd s \<le> snd (last ss)"
  by (induction ss) auto

lemma sorted_hd_le_snd:
  fixes ss :: "(store_key \<times> state_timestamp) list"
  shows "sorted_wrt (\<le>) (map snd ss) \<Longrightarrow> s \<in> set ss \<Longrightarrow> snd (hd ss) \<le> snd s"
  by (cases ss) auto


lemma below_right_of_find:
  assumes "steps_wf l rb ss" "k < l"
  shows "key_below k (case find (\<lambda>s. t \<le> snd s) ss of None \<Rightarrow> rb | Some s \<Rightarrow> Bounded (fst s))"
proof (cases "find (\<lambda>s. t \<le> snd s) ss")
  case None
  from assms(1) have "key_below (fst (hd ss)) rb" "fst (hd ss) = l"
    by (cases ss; simp add: steps_wf_def)+
  with assms(2) None show ?thesis by (auto dest: key_below_trans)
next
  case (Some s)
  then have "s \<in> set ss" by (auto simp: find_Some_iff)
  with assms(1) have "l \<le> fst s" using sorted_hd_le[of ss s] by (simp add: steps_wf_def)
  with assms(2) Some show ?thesis by simp
qed

lemma steps_wf_lt_right:
  "steps_wf l (Bounded r) ss \<Longrightarrow> l < r"
  by (cases ss) (auto simp: steps_wf_def)

lemma find_append:
  "find P (xs @ ys) = (case find P xs of None \<Rightarrow> find P ys | Some x \<Rightarrow> Some x)"
  by (induction xs) auto

lemma find_tl_skip:
  "ss \<noteq> [] \<Longrightarrow> \<not> P (hd ss) \<Longrightarrow> find P (tl ss) = find P ss"
  by (cases ss) auto

lemma combine_concat:
  assumes wfa: "bets_wf a" and wfb: "bets_wf b" and adj: "adjacent a b"
    and c: "combine a b = Inr c"
  shows "region_contains_key h (region_for_timestamp c t) k \<longleftrightarrow>
           region_contains_key h (region_for_timestamp a t) k \<or>
           region_contains_key h (region_for_timestamp b t) k"
proof -
  let ?P = "\<lambda>s::store_key \<times> state_timestamp. t \<le> snd s"
  let ?la = "left (inner (bets_region a))" and ?lb = "left (inner (bets_region b))"
  let ?rb = "right (inner (bets_region b))"
  let ?ssb' = "if snd (last (steps a)) = snd (hd (steps b)) then tl (steps b) else steps b"
  from wfa have sa: "steps_wf ?la (right (inner (bets_region a))) (steps a)"
    by (simp add: bets_wf_def)
  from wfb have sb: "steps_wf ?lb ?rb (steps b)" by (simp add: bets_wf_def)
  from adj have ra: "right (inner (bets_region a)) = Bounded ?lb"
    and hb: "hash_beg (bets_region a) = hash_beg (bets_region b)"
    and he: "hash_end (bets_region a) = hash_end (bets_region b)"
    and ts: "snd (last (steps a)) \<le> snd (hd (steps b))"
    by (simp_all add: adjacent_def)
  from sa sb have ne: "steps a \<noteq> []" "steps b \<noteq> []" by (simp_all add: steps_wf_def)
  from sa ra have lt: "?la < ?lb" using steps_wf_lt_right by simp
  from c adj ne have cdef:
    "c = \<lparr>bets_region = (bets_region a)\<lparr>inner := (inner (bets_region a))\<lparr>right := ?rb\<rparr>\<rparr>,
          max_timestamp = max (max_timestamp a) (max_timestamp b),
          steps = steps a @ ?ssb'\<rparr>"
    by (simp add: combine_def adjacent_def)
  show ?thesis
  proof (cases "find ?P (steps a)")
    case (Some s)
    then have s: "s \<in> set (steps a)" "t \<le> snd s" by (auto simp: find_Some_iff)
    with sa have "snd s \<le> snd (last (steps a))"
      using sorted_le_last[of "steps a" s] by (simp add: steps_wf_def)
    with s ts have "t \<le> snd (hd (steps b))" by simp
    with ne have fb: "find ?P (steps b) = Some (hd (steps b))" by (cases "steps b") auto
    from sb have "fst (hd (steps b)) = ?lb" by (simp add: steps_wf_def)
    with fb have "\<not> region_contains_key h (region_for_timestamp b t) k"
      by (auto simp add: region_contains_rft)
    moreover have "region_contains_key h (region_for_timestamp c t) k \<longleftrightarrow>
                   region_contains_key h (region_for_timestamp a t) k"
      using Some by (simp add: region_contains_rft cdef find_append)
    ultimately show ?thesis by simp
  next
    case None
    then have all: "\<forall>s \<in> set (steps a). \<not> t \<le> snd s" by (auto simp add: find_None_iff)
    have "find ?P ?ssb' = find ?P (steps b)"
    proof (cases "snd (last (steps a)) = snd (hd (steps b))")
      case True
      from all ne have "\<not> t \<le> snd (last (steps a))" by simp
      with True have "\<not> ?P (hd (steps b))" by simp
      with ne True show ?thesis using find_tl_skip[of "steps b" ?P] by simp
    next
      case False then show ?thesis by simp
    qed
    with None have fc: "find ?P (steps c) = find ?P (steps b)"
      by (simp add: cdef find_append)
    let ?R = "case find ?P (steps b) of None \<Rightarrow> ?rb | Some s \<Rightarrow> Bounded (fst s)"
    have below: "key_below k ?R" if "k < ?lb"
      using below_right_of_find[OF sb that] .
    have C: "region_contains_key h (region_for_timestamp c t) k \<longleftrightarrow>
             hash_beg (bets_region b) \<le> h k \<and> h k < hash_end (bets_region b) \<and> ?la \<le> k \<and> key_below k ?R"
      unfolding region_contains_rft fc by (simp add: cdef hb he cong: option.case_cong)
    have A: "region_contains_key h (region_for_timestamp a t) k \<longleftrightarrow>
             hash_beg (bets_region b) \<le> h k \<and> h k < hash_end (bets_region b) \<and> ?la \<le> k \<and> k < ?lb"
      unfolding region_contains_rft None by (simp add: ra hb he cong: option.case_cong)
    have B: "region_contains_key h (region_for_timestamp b t) k \<longleftrightarrow>
             hash_beg (bets_region b) \<le> h k \<and> h k < hash_end (bets_region b) \<and> ?lb \<le> k \<and> key_below k ?R"
      unfolding region_contains_rft by simp
    show ?thesis
    proof (cases "k < ?lb")
      case True
      with below show ?thesis unfolding A B C by auto
    next
      case False
      with lt have "?la \<le> k" "?lb \<le> k" by auto
      with False show ?thesis unfolding A B C by auto
    qed
  qed
qed


lemma key_below_of_steps:
  fixes ss :: "(store_key \<times> state_timestamp) list"
  shows "steps_wf l (Bounded r) ss \<Longrightarrow> s \<in> set ss \<Longrightarrow> fst s < r"
  by (auto simp: steps_wf_def list_all_iff)

lemma combine_wf:
  assumes wfa: "bets_wf a" and wfb: "bets_wf b" and adj: "adjacent a b"
  shows "\<exists>c. combine a b = Inr c \<and> bets_wf c \<and>
           steps c = steps a @ (if snd (last (steps a)) = snd (hd (steps b))
                                then tl (steps b) else steps b) \<and>
           max_timestamp c = max (max_timestamp a) (max_timestamp b)"
proof -
  let ?la = "left (inner (bets_region a))" and ?lb = "left (inner (bets_region b))"
  let ?rb = "right (inner (bets_region b))"
  let ?ssb' = "if snd (last (steps a)) = snd (hd (steps b)) then tl (steps b) else steps b"
  let ?c = "\<lparr>bets_region = (bets_region a)\<lparr>inner := (inner (bets_region a))\<lparr>right := ?rb\<rparr>\<rparr>,
          max_timestamp = max (max_timestamp a) (max_timestamp b),
          steps = steps a @ ?ssb'\<rparr>"
  from wfa have sa: "steps_wf ?la (right (inner (bets_region a))) (steps a)"
    and ma: "max_timestamp a = snd (last (steps a))"
    by (simp_all add: bets_wf_def)
  from wfb have sb: "steps_wf ?lb ?rb (steps b)"
    and mb: "max_timestamp b = snd (last (steps b))" by (simp_all add: bets_wf_def)
  from adj have ra: "right (inner (bets_region a)) = Bounded ?lb"
    and ts: "snd (last (steps a)) \<le> snd (hd (steps b))"
    by (simp_all add: adjacent_def)
  from sa sb have ne: "steps a \<noteq> []" "steps b \<noteq> []" by (simp_all add: steps_wf_def)
  have c: "combine a b = Inr ?c"
    using adj ne by (simp add: combine_def adjacent_def)
  have sub: "set ?ssb' \<subseteq> set (steps b)"
    using ne by (auto dest: list.set_sel(2))
  have sk': "sorted_wrt (<) (map fst ?ssb')" and st': "sorted_wrt (\<le>) (map snd ?ssb')"
    using sb by (cases "steps b"; simp add: steps_wf_def)+
  have lbrb: "key_below ?lb ?rb"
    using sb by (cases "steps b") (auto simp: steps_wf_def)
  have ka: "fst x < ?lb" if "x \<in> set (steps a)" for x
    using key_below_of_steps[of ?la ?lb "steps a" x] sa ra that by simp
  have kb: "?lb \<le> fst y" if "y \<in> set (steps b)" for y
    using sorted_hd_le[of "steps b" y] sb that by (simp add: steps_wf_def)
  have cross_k: "fst x < fst y" if "x \<in> set (steps a)" "y \<in> set ?ssb'" for x y
  proof -
    from that(2) sub have "y \<in> set (steps b)" by blast
    with ka[OF that(1)] kb show ?thesis by (meson less_le_trans)
  qed
  have cross_t: "snd x \<le> snd y" if "x \<in> set (steps a)" "y \<in> set ?ssb'" for x y
  proof -
    from that(2) sub have y: "y \<in> set (steps b)" by blast
    have "snd x \<le> snd (last (steps a))"
      using sorted_le_last[of "steps a" x] sa that(1) by (simp add: steps_wf_def)
    moreover have "snd (hd (steps b)) \<le> snd y"
      using sorted_hd_le_snd[of "steps b" y] sb y by (simp add: steps_wf_def)
    ultimately show ?thesis using ts by (meson order_trans)
  qed
  have w1: "sorted_wrt (<) (map fst (steps a @ ?ssb'))"
    using sa sk' cross_k unfolding map_append sorted_wrt_append
    by (auto simp: steps_wf_def)
  have w2: "sorted_wrt (\<le>) (map snd (steps a @ ?ssb'))"
    using sa st' cross_t unfolding map_append sorted_wrt_append
    by (auto simp: steps_wf_def)
  have w3: "list_all (\<lambda>s. key_below (fst s) ?rb) (steps a @ ?ssb')"
  proof -
    have "key_below (fst x) ?rb" if "x \<in> set (steps a)" for x
      using key_below_trans[OF ka[OF that] lbrb] .
    moreover have "key_below (fst y) ?rb" if "y \<in> set ?ssb'" for y
      using that sub sb by (auto simp: steps_wf_def list_all_iff)
    ultimately show ?thesis unfolding list_all_iff by auto
  qed
  have w4: "fst (hd (steps a @ ?ssb')) = ?la"
    using sa ne by (simp add: steps_wf_def)
  have w5: "max (max_timestamp a) (max_timestamp b) = snd (last (steps a @ ?ssb'))"
  proof (cases "?ssb' = []")
    case True
    then have eq: "snd (last (steps a)) = snd (hd (steps b))" and "tl (steps b) = []"
      using ne by (auto split: if_splits)
    with ne have "steps b = [hd (steps b)]" by (cases "steps b") auto
    then have "last (steps b) = hd (steps b)" by (metis last.simps)
    with eq ma mb True show ?thesis by simp
  next
    case False
    then have l: "last (steps a @ ?ssb') = last (steps b)"
      using ne by (auto simp: last_tl)
    have "snd (last (steps a)) \<le> snd (last (steps b))"
      using ts sorted_le_last[of "steps b" "hd (steps b)"] sb ne
      by (simp add: steps_wf_def)
    then show ?thesis unfolding l using ma mb by simp
  qed
  have "bets_wf ?c"
    using w1 w2 w3 w4 w5 ne by (simp add: bets_wf_def steps_wf_def)
  with c show ?thesis by simp
qed

text \<open>An empty argument: \<open>combine\<close> returns the other map unchanged.\<close>

lemma combine_empty_next:
  "region_is_empty (bets_region b) \<Longrightarrow> combine a b = Inr a"
  by (simp add: combine_def)

lemma combine_empty_this:
  "\<not> region_is_empty (bets_region b) \<Longrightarrow> region_is_empty (bets_region a) \<Longrightarrow>
   combine a b = Inr b"
  by (simp add: combine_def)

text \<open>
  Claim C5. For two well-formed maps over adjacent regions (the right bound of the first
  is the left key of the second, and the last timestamp of the first is at most the first
  timestamp of the second), \<open>combine\<close> succeeds, and for every timestamp the keys of
  \<open>region_for_timestamp\<close> on the result are the keys of the two separate results together.
  The combined steps stay strictly ascending by left key; when the two boundary timestamps
  are equal the first step of the second map is dropped, otherwise all steps are kept; the
  combined maximum timestamp is the larger of the two.
\<close>

theorem combine_region_for_timestamp:
  assumes "bets_wf a" and "bets_wf b" and "adjacent a b"
  shows "\<exists>c. combine a b = Inr c \<and> bets_wf c \<and>
           (\<forall>t k. region_contains_key h (region_for_timestamp c t) k \<longleftrightarrow>
                  region_contains_key h (region_for_timestamp a t) k \<or>
                  region_contains_key h (region_for_timestamp b t) k) \<and>
           sorted_wrt (<) (map fst (steps c)) \<and>
           (snd (last (steps a)) = snd (hd (steps b)) \<longrightarrow> steps c = steps a @ tl (steps b)) \<and>
           (snd (last (steps a)) \<noteq> snd (hd (steps b)) \<longrightarrow> steps c = steps a @ steps b) \<and>
           max_timestamp c = max (max_timestamp a) (max_timestamp b)"
proof -
  from combine_wf[OF assms] obtain c where c: "combine a b = Inr c" "bets_wf c"
    "steps c = steps a @ (if snd (last (steps a)) = snd (hd (steps b))
                          then tl (steps b) else steps b)"
    "max_timestamp c = max (max_timestamp a) (max_timestamp b)"
    by blast
  have "sorted_wrt (<) (map fst (steps c))"
    using c(2) by (simp add: bets_wf_def steps_wf_def)
  moreover have "\<forall>t k. region_contains_key h (region_for_timestamp c t) k \<longleftrightarrow>
                  region_contains_key h (region_for_timestamp a t) k \<or>
                  region_contains_key h (region_for_timestamp b t) k"
    using combine_concat[OF assms c(1)] by blast
  ultimately show ?thesis using c by auto
qed

text \<open>The theorem at two adjacent maps that share the boundary timestamp 2.\<close>

theorem combine_region_for_timestamp_witness:
  "bets_wf ex_bets_a \<and> bets_wf ex_bets_b \<and> adjacent ex_bets_a ex_bets_b \<and>
   (\<exists>c. combine ex_bets_a ex_bets_b = Inr c \<and>
        steps c = [(''a'', 2), (''d'', 5)] \<and> max_timestamp c = 5 \<and>
        sorted_wrt (<) (map fst (steps c)) \<and>
        (region_contains_key (\<lambda>_. 3) (region_for_timestamp c 4) ''c'' \<longleftrightarrow>
         region_contains_key (\<lambda>_. 3) (region_for_timestamp ex_bets_a 4) ''c'' \<or>
         region_contains_key (\<lambda>_. 3) (region_for_timestamp ex_bets_b 4) ''c''))"
proof -
  have a: "bets_wf ex_bets_a" by (simp add: bets_wf_def steps_wf_def ex_bets_a_def)
  have b: "bets_wf ex_bets_b" by (simp add: bets_wf_def steps_wf_def ex_bets_b_def)
  have adj: "adjacent ex_bets_a ex_bets_b"
    by (simp add: adjacent_def ex_bets_a_def ex_bets_b_def region_is_empty_def
        key_range_is_empty_def)
  have e: "snd (last (steps ex_bets_a)) = snd (hd (steps ex_bets_b))"
    "steps ex_bets_a @ tl (steps ex_bets_b) = [(''a'', 2), (''d'', 5)]"
    "max (max_timestamp ex_bets_a) (max_timestamp ex_bets_b) = 5"
    by (simp_all add: ex_bets_a_def ex_bets_b_def)
  from combine_region_for_timestamp[OF a b adj, of "\<lambda>_. 3"] e a b adj
  show ?thesis by auto
qed

section \<open>The constructor from a region map and the backfill callback\<close>

lemma visit_steps_ndebug:
  "visit_steps True region ps acc = Inr (acc @ map (\<lambda>(reg, ts). (left (inner reg), ts)) ps)"
  by (induction ps arbitrary: acc) auto

lemma pieces_cover_keys:
  "pieces_cover l r ps \<Longrightarrow>
     ps \<noteq> [] \<and> left (hd ps) = l \<and> sorted_wrt (<) (map left ps) \<and>
     (\<forall>p \<in> set ps. l \<le> left p \<and> key_below (left p) r)"
proof (induction l r ps rule: pieces_cover.induct)
  case (1 l r)
  then show ?case by simp
next
  case (2 l r p')
  then show ?case by (cases r) (auto simp: key_range_is_empty_def)
next
  case (3 l r p' q rest)
  then obtain m where m: "right p' = Bounded m" "pieces_cover m r (q # rest)" "left p' = l"
    "l < m"
    by (auto simp: key_range_is_empty_def split: right_bound.splits)
  from 3(1)[OF m(1) m(2)] have ih: "left q = m" "sorted_wrt (<) (map left (q # rest))"
    "\<forall>p \<in> set (q # rest). m \<le> left p \<and> key_below (left p) r"
    by auto
  from ih(3) have "key_below m r" using ih(1) by auto
  with m(4) have lr: "key_below l r" by (cases r) auto
  have "\<forall>p \<in> set (q # rest). l < left p" using ih(3) m(4) by auto
  with ih m lr show ?case by auto
qed

lemma visit_steps_debug:
  assumes "list_all (\<lambda>(reg, v). hash_beg reg = hash_beg region \<and> hash_end reg = hash_end region) ps"
    and "sorted_wrt (<) (map fst acc @ map (\<lambda>(reg, v). left (inner reg)) ps)"
  shows "visit_steps ndebug region ps acc = Inr (acc @ map (\<lambda>(reg, ts). (left (inner reg), ts)) ps)"
  using assms
proof (induction ps arbitrary: acc)
  case Nil
  then show ?case by simp
next
  case (Cons p ps)
  obtain reg ts where p: "p = (reg, ts)" by (cases p)
  have ord: "acc = [] \<or> fst (last acc) < left (inner reg)"
  proof (cases "acc = []")
    case False
    then have "last acc \<in> set acc" by simp
    then show ?thesis using Cons.prems(2) unfolding p by (auto simp: sorted_wrt_append)
  qed simp
  have "sorted_wrt (<) (map fst (acc @ [(left (inner reg), ts)]) @ map (\<lambda>(reg, v). left (inner reg)) ps)"
    using Cons.prems(2) unfolding p by simp
  with Cons.IH[of "acc @ [(left (inner reg), ts)]"] Cons.prems(1) ord
  show ?case unfolding p by simp
qed

lemma bets_of_region_map_wf:
  assumes wf: "region_map_wf rm"
  shows "\<exists>b. bets_of_region_map ndebug rm = Inr b \<and> bets_region b = rm_domain rm \<and>
             steps b \<noteq> [] \<and> snd (hd (steps b)) = snd (hd (rm_pieces rm)) \<and>
             (sorted_wrt (\<le>) (map snd (rm_pieces rm)) \<longrightarrow> bets_wf b)"
proof -
  let ?ps = "rm_pieces rm"
  let ?ss = "map (\<lambda>(reg, ts). (left (inner reg), ts)) ?ps"
  let ?l = "left (inner (rm_domain rm))" and ?r = "right (inner (rm_domain rm))"
  have krs: "map left (map (\<lambda>(reg, v). inner reg) ?ps) = map fst ?ss"
    by (induction ?ps) auto
  from wf have cov: "pieces_cover ?l ?r (map (\<lambda>(reg, v). inner reg) ?ps)"
    by (simp add: region_map_wf_def)
  from pieces_cover_keys[OF cov] have k: "?ps \<noteq> []" "sorted_wrt (<) (map fst ?ss)"
    "\<forall>p \<in> set ?ps. key_below (left (inner (fst p))) ?r"
    "left (inner (fst (hd ?ps))) = ?l"
    unfolding krs[symmetric] by (auto simp: hd_map split: prod.splits)
  have fsts: "map fst ?ss = map (\<lambda>(reg, v). left (inner reg)) ?ps" by (induction ?ps) auto
  have snds: "map snd ?ss = map snd ?ps" by (induction ?ps) auto
  have pre: "sorted_wrt (<) (map fst [] @ map (\<lambda>(reg, v). left (inner reg)) ?ps)"
    using k(2) unfolding fsts by simp
  have hashes: "list_all (\<lambda>(reg, v). hash_beg reg = hash_beg (rm_domain rm) \<and>
                           hash_end reg = hash_end (rm_domain rm)) ?ps"
    using wf by (simp add: region_map_wf_def)
  have v: "visit_steps ndebug (rm_domain rm) ?ps [] = Inr ?ss"
    using visit_steps_debug[OF hashes pre, of ndebug] by simp
  have hd: "hd ?ss = (left (inner (fst (hd ?ps))), snd (hd ?ps))"
    using k(1) by (cases ?ps) (auto split: prod.splits)
  have "steps_wf ?l ?r ?ss" if "sorted_wrt (\<le>) (map snd ?ps)"
    using k that hd unfolding steps_wf_def snds
    by (auto simp: list_all_iff split: prod.splits)
  with v k(1) hd show ?thesis
    by (simp add: bets_of_region_map_def get_domain_def bets_wf_def)
qed

lemma region_map_wf_rm_map: "region_map_wf (rm_map rm f) = region_map_wf rm"
proof -
  show ?thesis
    by (simp add: region_map_wf_def rm_map_def list_all_iff case_prod_unfold comp_def)
qed


lemma on_progress_returns:
  assumes "chunk_follows cb chunk"
  shows "\<exists>cb'. on_progress ndebug q cb chunk =
           Inr (cb', length q < write_queue_count (config cb))"
proof -
  from assms have wf: "region_map_wf (rm_map chunk v_timestamp)"
    by (simp add: chunk_follows_def region_map_wf_rm_map)
  from bets_of_region_map_wf[OF wf, of ndebug] obtain b where
    b: "bets_of_region_map ndebug (rm_map chunk v_timestamp) = Inr b"
      "bets_region b = rm_domain chunk" "steps b \<noteq> []"
      "snd (hd (steps b)) = snd (hd (rm_pieces (rm_map chunk v_timestamp)))"
    by (auto simp: rm_map_def)
  from assms have "rm_pieces chunk \<noteq> []"
    by (auto simp: chunk_follows_def region_map_wf_def)
  then have "snd (hd (rm_pieces (rm_map chunk v_timestamp))) = v_timestamp (snd (hd (rm_pieces chunk)))"
    by (cases "rm_pieces chunk") (auto simp: rm_map_def)
  with b(4) have hd: "snd (hd (steps b)) = v_timestamp (snd (hd (rm_pieces chunk)))" by simp
  have "\<exists>c. combine (backfill_end_timestamps cb) b = Inr c"
    using assms b(2,3) hd by (auto simp: chunk_follows_def combine_def)
  then obtain c where c: "combine (backfill_end_timestamps cb) b = Inr c" by blast
  from assms have "Bounded (left (inner (get_domain chunk))) = right_bound cb"
    by (simp add: chunk_follows_def get_domain_def)
  with b(1) c show ?thesis by (simp add: on_progress_def)
qed

text \<open>
  Claim C6. Whenever the backfill callback returns for a chunk, the flag it returns says
  to continue exactly when the queue holds fewer than \<open>write_queue_count\<close> entries, so the
  backfill is stopped exactly when the queue size has reached \<open>write_queue_count\<close>; and
  for every chunk that continues the callback's progress the callback does return.
\<close>

theorem on_progress_stop_condition:
  "(\<forall>cb' continue. on_progress ndebug q cb chunk = Inr (cb', continue) \<longrightarrow>
      (continue \<longleftrightarrow> length q < write_queue_count (config cb)) \<and>
      (\<not> continue \<longleftrightarrow> write_queue_count (config cb) \<le> length q)) \<and>
   (chunk_follows cb chunk \<longrightarrow>
      (\<exists>cb'. on_progress ndebug q cb chunk =
         Inr (cb', length q < write_queue_count (config cb))))"
proof -
  have "(continue \<longleftrightarrow> length q < write_queue_count (config cb)) \<and>
        (\<not> continue \<longleftrightarrow> write_queue_count (config cb) \<le> length q)"
    if "on_progress ndebug q cb chunk = Inr (cb', continue)" for cb' continue
    using that by (auto simp: on_progress_def split: if_splits sum.splits)
  then show ?thesis using on_progress_returns by blast
qed

text \<open>The theorem at a chunk over \<open>[c, e)\<close> that follows the map over \<open>[a, c)\<close>, with
  \<open>write_queue_count = 2\<close>: one queued entry lets the backfill continue, two stop it.\<close>

theorem on_progress_stop_condition_witness:
  "chunk_follows ex_callback ex_chunk \<and>
   (\<exists>cb'. on_progress False [ex_entry] ex_callback ex_chunk = Inr (cb', True)) \<and>
   (\<exists>cb'. on_progress False [ex_entry, ex_entry] ex_callback ex_chunk = Inr (cb', False))"
proof -
  have f: "chunk_follows ex_callback ex_chunk"
    by (simp add: chunk_follows_def ex_callback_def ex_chunk_def ex_bets_a_def
        region_map_wf_def key_range_is_empty_def region_is_empty_def)
  have c: "write_queue_count (config ex_callback) = 2" by (simp add: ex_callback_def)
  from on_progress_stop_condition[of False "[ex_entry]" ex_callback ex_chunk]
    on_progress_stop_condition[of False "[ex_entry, ex_entry]" ex_callback ex_chunk] f c
  show ?thesis by auto
qed

section \<open>The trickle of acknowledgements\<close>






lemma ex_drain_value:
  "pulsed (drain_events ex_config ex_events (end_phase ex_store_region (Bounded ''c'') ex_client)) = [1] \<and>
   ack_queue (drain_events ex_config ex_events (end_phase ex_store_region (Bounded ''c'') ex_client)) = [2] \<and>
   acks_to_release (drain_events ex_config ex_events (end_phase ex_store_region (Bounded ''c'') ex_client)) = 1 / 4"
  by (simp add: ex_config_def ex_events_def ex_client_def end_phase_def init_regions_def
      call_queue_fun_def queue_fun_trickle_def on_finished_one_entry_def Let_def)

section \<open>The two queue functions and the release after the drain\<close>

lemma release_remaining_eq:
  "release_remaining st = st\<lparr>pulsed := pulsed st @ ack_queue st, ack_queue := []\<rparr>"
proof (induction st rule: release_remaining.induct)
  case (1 st)
  show ?case
  proof (cases "ack_queue st")
    case Nil
    then show ?thesis by (subst release_remaining.simps) simp
  next
    case (Cons a as)
    then show ?thesis using 1 by (subst release_remaining.simps) simp
  qed
qed

text \<open>
  Claim C10. The loop body installs two queue functions with different acknowledgement
  policies. The one installed at the start of a phase queues the entry and pulses the
  condition at once, leaving the acknowledgement queue alone. The one installed at the
  end of the backfill queues the entry and withholds the condition in the
  acknowledgement queue unless the accumulator holds a whole acknowledgement. After the
  drain, with the stream queue empty, there is a state in which every withheld condition
  has been pulsed, the acknowledgement queue is empty and the regions are still
  unchanged, and the promotion is applied to that state.
\<close>

theorem ack_policies:
  "(begin_phase st = Inr st' \<longrightarrow> queue_fun st' = Some Fill) \<and>
   (queue_fun st = Some Fill \<longrightarrow>
      call_queue_fun entry ack st = st\<lparr>queue := queue st @ [entry], pulsed := pulsed st @ [ack]\<rparr>) \<and>
   queue_fun (end_phase store_region rb st) = Some Trickle \<and>
   (queue_fun st = Some Trickle \<and> acks_to_release st < 1 \<longrightarrow>
      call_queue_fun entry ack st =
        st\<lparr>queue := queue st @ [entry], ack_queue := ack_queue st @ [ack]\<rparr>) \<and>
   (queue_fun st = Some Trickle \<and> 1 \<le> acks_to_release st \<longrightarrow>
      call_queue_fun entry ack st =
        st\<lparr>queue := queue st @ [entry], acks_to_release := acks_to_release st - 1,
           pulsed := pulsed st @ [ack]\<rparr>) \<and>
   (queue st = [] \<longrightarrow>
      (\<exists>st1. st1 = st\<lparr>pulsed := pulsed st @ ack_queue st, ack_queue := []\<rparr> \<and>
             release_remaining st = st1 \<and>
             finish_phase st = Inr ((promote st1)\<lparr>queue_fun := None\<rparr>)))"
  by (auto simp: begin_phase_def call_queue_fun_def queue_fun_fill_def queue_fun_trickle_def
      end_phase_def finish_phase_def release_remaining_eq Let_def split: if_splits)


lemma ex_fill_eq:
  "ex_fill =
     \<lparr>region_streaming = ex_store_region\<lparr>inner := key_range_empty\<rparr>,
      region_queueing = ex_store_region,
      region_discarding = ex_store_region\<lparr>inner := key_range_empty\<rparr>,
      queue_fun = Some Fill, queue = [], ack_queue = [], acks_to_release = 0, pulsed = []\<rparr>"
  by (simp add: ex_fill_def ex_client_def begin_phase_def init_regions_def
      key_range_is_empty_def key_range_empty_def)

lemma ex_drain_eq:
  "ex_drain =
     \<lparr>region_streaming = ex_store_region\<lparr>inner := key_range_empty\<rparr>,
      region_queueing = ex_store_region\<lparr>inner := \<lparr>left = ''b'', right = Bounded ''c''\<rparr>\<rparr>,
      region_discarding = ex_store_region\<lparr>inner := \<lparr>left = ''c'', right = Bounded ''e''\<rparr>\<rparr>,
      queue_fun = Some Trickle, queue = [], ack_queue = [], acks_to_release = 0, pulsed = []\<rparr>"
  by (simp add: ex_drain_def ex_fill_eq end_phase_def ex_store_region_def key_range_empty_def)

text \<open>The theorem at the example client: in the backfill phase the condition is pulsed at
  once; at the start of the drain it is withheld; with a whole acknowledgement in the
  accumulator it is pulsed; and finishing the phase releases the withheld condition.\<close>

theorem ack_policies_witness:
  "begin_phase ex_client = Inr ex_fill \<and> queue_fun ex_fill = Some Fill \<and>
   pulsed (call_queue_fun ex_entry 1 ex_fill) = [1] \<and>
   ack_queue (call_queue_fun ex_entry 1 ex_fill) = [] \<and>
   queue_fun ex_drain = Some Trickle \<and> acks_to_release ex_drain < 1 \<and>
   pulsed (call_queue_fun ex_entry 2 ex_drain) = [] \<and>
   ack_queue (call_queue_fun ex_entry 2 ex_drain) = [2] \<and>
   queue_fun ex_ready = Some Trickle \<and> 1 \<le> acks_to_release ex_ready \<and>
   pulsed (call_queue_fun ex_entry 3 ex_ready) = [3] \<and>
   ack_queue (call_queue_fun ex_entry 3 ex_ready) = [] \<and>
   queue ex_drained = [] \<and>
   (\<exists>s. finish_phase ex_drained = Inr s \<and> pulsed s = [2] \<and> ack_queue s = [] \<and>
        queue_fun s = None)"
proof -
  have b: "begin_phase ex_client = Inr ex_fill"
    by (simp add: ex_fill_def ex_client_def begin_phase_def init_regions_def
        key_range_is_empty_def key_range_empty_def)
  have fill: "queue_fun ex_fill = Some Fill" "pulsed ex_fill = []" "ack_queue ex_fill = []"
    by (simp_all add: ex_fill_eq)
  have drain: "queue_fun ex_drain = Some Trickle" "acks_to_release ex_drain < 1"
    "pulsed ex_drain = []" "ack_queue ex_drain = []"
    by (simp_all add: ex_drain_eq)
  have ready: "queue_fun ex_ready = Some Trickle" "1 \<le> acks_to_release ex_ready"
    "pulsed ex_ready = []" "ack_queue ex_ready = []"
    by (simp_all add: ex_ready_def ex_drain_eq ex_config_def
        on_finished_one_entry_def Let_def)
  have drained: "queue ex_drained = []" "pulsed ex_drained = []" "ack_queue ex_drained = [2]"
    using drain
    by (simp_all add: ex_drained_def call_queue_fun_def queue_fun_trickle_def Let_def)
  note p1 = ack_policies[of ex_client ex_fill ex_entry 1 ex_store_region "Bounded ''c''"]
  note p2 = ack_policies[of ex_fill ex_fill ex_entry 1 ex_store_region "Bounded ''c''"]
  note p3 = ack_policies[of ex_drain ex_fill ex_entry 2 ex_store_region "Bounded ''c''"]
  note p4 = ack_policies[of ex_ready ex_fill ex_entry 3 ex_store_region "Bounded ''c''"]
  note p5 = ack_policies[of ex_drained ex_fill ex_entry 3 ex_store_region "Bounded ''c''"]
  have 1: "pulsed (call_queue_fun ex_entry 1 ex_fill) = [1] \<and>
           ack_queue (call_queue_fun ex_entry 1 ex_fill) = []"
    using p2 fill by simp
  have 2: "pulsed (call_queue_fun ex_entry 2 ex_drain) = [] \<and>
           ack_queue (call_queue_fun ex_entry 2 ex_drain) = [2]"
    using p3 drain by simp
  have 3: "pulsed (call_queue_fun ex_entry 3 ex_ready) = [3] \<and>
           ack_queue (call_queue_fun ex_entry 3 ex_ready) = []"
    using p4 ready by simp
  have 4: "\<exists>s. finish_phase ex_drained = Inr s \<and> pulsed s = [2] \<and> ack_queue s = [] \<and>
        queue_fun s = None"
    using p5 drained by (simp add: promote_def)
  show ?thesis using p1 b fill drain ready drained 1 2 3 4 by simp
qed

section \<open>The partition into three regions\<close>

lemma contains_key_empty [simp]: "\<not> contains_key key_range_empty k"
  by (simp add: contains_key_def key_range_empty_def)

lemma key_range_is_empty_contains:
  "key_range_is_empty kr \<Longrightarrow> \<not> contains_key kr k"
  by (cases "right kr") (auto simp: key_range_is_empty_def contains_key_def)

text \<open>The partition holds for the initial assignment.\<close>

lemma partition_init: "partition_ok h store_region (init_regions store_region)"
  by (simp add: partition_ok_def init_regions_def region_contains_key_def)

text \<open>The start of a phase keeps the partition.\<close>

lemma partition_begin_phase:
  assumes "partition_ok h store_region st" and "begin_phase st = Inr st'"
  shows "partition_ok h store_region st'"
proof -
  from assms(2) have e: "key_range_is_empty (inner (region_queueing st))"
    and st': "st' = st\<lparr>region_queueing := region_discarding st,
                   region_discarding := (region_discarding st)\<lparr>inner := key_range_empty\<rparr>,
                   queue := [], queue_fun := Some Fill\<rparr>"
    by (auto simp: begin_phase_def split: if_splits)
  have q: "\<not> region_contains_key h (region_queueing st) k" for k
    using key_range_is_empty_contains[OF e] by (simp add: region_contains_key_def)
  have S': "region_contains_key h (region_streaming st') k =
            region_contains_key h (region_streaming st) k" for k
    by (simp add: st')
  have Q': "region_contains_key h (region_queueing st') k =
            region_contains_key h (region_discarding st) k" for k
    by (simp add: st')
  have D': "\<not> region_contains_key h (region_discarding st') k" for k
    by (simp add: st' region_contains_key_def)
  show ?thesis
    using assms(1) unfolding partition_ok_def S' Q' by (simp add: q D')
qed

lemma key_below_le: "k < m \<Longrightarrow> right_bound_le (Bounded m) rb \<Longrightarrow> key_below k rb"
  by (cases rb) auto

text \<open>Three regions with the hash range of the store's region, the first without keys
  and the other two splitting the key range of the store's region at a key, form a
  partition.\<close>

lemma partition_split:
  assumes s: "\<forall>k. \<not> region_contains_key h (region_streaming st) k"
    and hq: "hash_beg (region_queueing st) = hash_beg store_region"
      "hash_end (region_queueing st) = hash_end store_region"
    and hd: "hash_beg (region_discarding st) = hash_beg store_region"
      "hash_end (region_discarding st) = hash_end store_region"
    and q: "inner (region_queueing st) = \<lparr>left = left (inner store_region), right = Bounded m\<rparr>"
    and d: "inner (region_discarding st) = \<lparr>left = m, right = right (inner store_region)\<rparr>"
    and m: "right_bound_le (Bounded m) (right (inner store_region))"
    and lm: "left (inner store_region) \<le> m"
  shows "partition_ok h store_region st"
proof -
  let ?l = "left (inner store_region)" and ?r = "right (inner store_region)"
  let ?H = "\<lambda>k. hash_beg store_region \<le> h k \<and> h k < hash_end store_region"
  have Q: "region_contains_key h (region_queueing st) k \<longleftrightarrow> ?H k \<and> ?l \<le> k \<and> k < m" for k
    by (simp add: region_contains_key_def contains_key_def hq q)
  have D: "region_contains_key h (region_discarding st) k \<longleftrightarrow> ?H k \<and> m \<le> k \<and> key_below k ?r" for k
    by (simp add: region_contains_key_def contains_key_def hd d)
  have R: "region_contains_key h store_region k \<longleftrightarrow> ?H k \<and> ?l \<le> k \<and> key_below k ?r" for k
    by (simp add: region_contains_key_def contains_key_def)
  have 1: "region_contains_key h store_region k \<longleftrightarrow>
           region_contains_key h (region_streaming st) k \<or>
           region_contains_key h (region_queueing st) k \<or>
           region_contains_key h (region_discarding st) k" for k
  proof (cases "k < m")
    case True
    then have "key_below k ?r" using key_below_le m by blast
    with True s show ?thesis unfolding Q D R by auto
  next
    case False
    then have "m \<le> k" by simp
    with lm have "?l \<le> k" by simp
    with False s show ?thesis unfolding Q D R by auto
  qed
  have 2: "\<not> (region_contains_key h (region_queueing st) k \<and>
              region_contains_key h (region_discarding st) k)" for k
    unfolding Q D by auto
  have 3: "k < k'" if "region_contains_key h (region_queueing st) k"
    "region_contains_key h (region_discarding st) k'" for k k'
    using that unfolding Q D by auto
  show ?thesis unfolding partition_ok_def using 1 2 3 s by blast
qed

text \<open>The first pass of the loop for the store region \<open>[b, e)\<close> with the backfill stopping
  at \<open>c\<close>: the partition holds after the start and after the end of the backfill and fails
  after the promotion.\<close>

lemma partition_first_pass:
  "partition_ok (\<lambda>_. 3) ex_store_region ex_fill \<and>
   partition_ok (\<lambda>_. 3) ex_store_region ex_drain \<and>
   \<not> partition_ok (\<lambda>_. 3) ex_store_region (promote ex_drain)"
proof -
  have b: "begin_phase (init_regions ex_store_region :: (nat, nat, nat) client) = Inr ex_fill"
    by (simp add: ex_fill_def ex_client_def begin_phase_def init_regions_def
        key_range_is_empty_def key_range_empty_def)
  have pf: "partition_ok (\<lambda>_. 3) ex_store_region ex_fill"
    using partition_begin_phase[OF partition_init b] .
  have pd: "partition_ok (\<lambda>_. 3) ex_store_region ex_drain"
    by (rule partition_split[where m = "''c''"])
       (simp_all add: ex_drain_eq region_contains_key_def ex_store_region_def)
  have a: "region_contains_key (\<lambda>_. 3) (region_streaming (promote ex_drain)) ''a''"
    by (simp add: promote_def ex_drain_eq ex_store_region_def key_range_empty_def
        region_contains_key_def contains_key_def)
  have na: "\<not> region_contains_key (\<lambda>_. 3) ex_store_region ''a''"
    by (simp add: region_contains_key_def contains_key_def ex_store_region_def)
  have "\<not> partition_ok (\<lambda>_. 3) ex_store_region (promote ex_drain)"
    using a na unfolding partition_ok_def by blast
  with pf pd show ?thesis by simp
qed

text \<open>
  Claim C3, on the source. For the store region \<open>[b, e)\<close> the first pass of the loop with
  the backfill stopping at \<open>c\<close> goes through the three transitions: the start of the phase
  makes the queueing region \<open>[b, e)\<close>, the end of the backfill makes it \<open>[b, c)\<close> with the
  discarding region \<open>[c, e)\<close>, and the promotion leaves the streaming region with the left
  key of the empty key range, so it is \<open>[-\<infinity>, c)\<close>: it contains the key \<open>a\<close>, which is not
  in the store's region.
\<close>

theorem promote_breaks_partition:
  "begin_phase (init_regions ex_store_region :: (nat, nat, nat) client) = Inr ex_fill \<and>
   region_queueing ex_fill = ex_store_region \<and>
   ex_drain = end_phase ex_store_region (Bounded ''c'') ex_fill \<and>
   inner (region_streaming ex_drain) = key_range_empty \<and>
   inner (region_queueing ex_drain) = \<lparr>left = ''b'', right = Bounded ''c''\<rparr> \<and>
   inner (region_discarding ex_drain) = \<lparr>left = ''c'', right = Bounded ''e''\<rparr> \<and>
   region_streaming (promote ex_drain) =
     \<lparr>hash_beg = 0, hash_end = 8, inner = \<lparr>left = [], right = Bounded ''c''\<rparr>\<rparr> \<and>
   region_contains_key (\<lambda>_. 3) (region_streaming (promote ex_drain)) ''a'' \<and>
   \<not> region_contains_key (\<lambda>_. 3) ex_store_region ''a''"
proof -
  have b: "begin_phase (init_regions ex_store_region :: (nat, nat, nat) client) = Inr ex_fill"
    by (simp add: ex_fill_def ex_client_def begin_phase_def init_regions_def
        key_range_is_empty_def key_range_empty_def)
  have s: "region_streaming (promote ex_drain) =
     \<lparr>hash_beg = 0, hash_end = 8, inner = \<lparr>left = [], right = Bounded ''c''\<rparr>\<rparr>"
    by (simp add: promote_def ex_drain_eq ex_store_region_def key_range_empty_def)
  have a: "region_contains_key (\<lambda>_. 3) (region_streaming (promote ex_drain)) ''a''"
    unfolding s by (simp add: region_contains_key_def contains_key_def)
  have na: "\<not> region_contains_key (\<lambda>_. 3) ex_store_region ''a''"
    by (simp add: region_contains_key_def contains_key_def ex_store_region_def)
  have q: "region_queueing ex_fill = ex_store_region" by (simp add: ex_fill_eq)
  have d: "ex_drain = end_phase ex_store_region (Bounded ''c'') ex_fill"
    by (simp add: ex_drain_def)
  have i1: "inner (region_streaming ex_drain) = key_range_empty"
    and i2: "inner (region_queueing ex_drain) = \<lparr>left = ''b'', right = Bounded ''c''\<rparr>"
    and i3: "inner (region_discarding ex_drain) = \<lparr>left = ''c'', right = Bounded ''e''\<rparr>"
    by (simp_all add: ex_drain_eq)
  show ?thesis
    by (rule conjI[OF b conjI[OF q conjI[OF d conjI[OF i1 conjI[OF i2 conjI[OF i3
          conjI[OF s conjI[OF a na]]]]]]]])
qed

section \<open>Properties of \<open>wait_for_table_readiness\<close>\<close>

lemma wait_loop_pending:
  "pending w a \<Longrightarrow>
   wait_loop imm poll w naps (a # rest) =
     wait_loop False (min max_poll_ms (poll * 2)) w (naps @ [poll]) rest"
  by (auto simp: pending_def found_def split: option.splits status_outcome.splits)

lemma wait_loop_decided:
  "\<not> pending w a \<Longrightarrow> wait_loop imm poll w naps (a # rest) = Some (outcome imm w a, naps)"
  by (auto simp: pending_def found_def outcome_def no_such_table_def deleted_def ready_def
      split: option.splits status_outcome.splits)


lemma wait_loop_prefix:
  assumes "\<forall>p \<in> set ps. pending w p" and "\<not> pending w a"
  shows "wait_loop imm poll w naps (ps @ a # rest) =
           Some (outcome (imm \<and> ps = []) w a, naps @ poll_seq poll (length ps))"
  using assms(1)
proof (induction ps arbitrary: imm poll naps)
  case Nil
  then show ?case using assms(2) wait_loop_decided[of w a] by simp
next
  case (Cons p ps)
  then have "pending w p" by simp
  from wait_loop_pending[OF this, of imm poll naps "ps @ a # rest"] Cons show ?case
    by (simp del: wait_loop.simps)
qed

lemma wait_loop_all_pending:
  "\<forall>p \<in> set ps. pending w p \<Longrightarrow> wait_loop imm poll w naps ps = None"
proof (induction ps arbitrary: imm poll naps)
  case Nil
  then show ?case by simp
next
  case (Cons p ps)
  then have "pending w p" by simp
  from wait_loop_pending[OF this, of imm poll naps ps] Cons show ?case
    by (simp del: wait_loop.simps)
qed

lemma wait_loop_returns:
  assumes "wait_loop imm poll w naps as = Some (r, naps')"
  shows "\<exists>ps a rest. as = ps @ a # rest \<and> (\<forall>p \<in> set ps. pending w p) \<and> \<not> pending w a \<and>
           r = outcome (imm \<and> ps = []) w a \<and> naps' = naps @ poll_seq poll (length ps)"
proof (cases "\<forall>p \<in> set as. pending w p")
  case True
  from wait_loop_all_pending[OF this] assms show ?thesis by simp
next
  case False
  then have "\<exists>x \<in> set as. \<not> pending w x" by blast
  from split_list_first_prop[OF this] obtain ps a rest where
    d: "as = ps @ a # rest" "\<not> pending w a" "\<forall>p \<in> set ps. \<not> \<not> pending w p"
    by blast
  then have "\<forall>p \<in> set ps. pending w p" by blast
  from wait_loop_prefix[OF this d(2), of imm poll naps rest] assms d show ?thesis
    by auto
qed

lemma outcome_cases:
  "\<not> pending w a \<Longrightarrow>
     (outcome imm w a = Inr DELETED \<longleftrightarrow> no_such_table a) \<and>
     (outcome imm w a = Inr IMMEDIATE \<longleftrightarrow> imm \<and> ready w a) \<and>
     (outcome imm w a = Inr WAITED \<longleftrightarrow> \<not> imm \<and> ready w a) \<and>
     (outcome imm w a = Inl Interrupted_exc \<longleftrightarrow> interrupted w a)"
  by (auto simp: outcome_def no_such_table_def deleted_def ready_def pending_def interrupted_def
      split: status_outcome.splits)

lemma not_pending:
  "no_such_table a \<Longrightarrow> \<not> pending w a"
  "ready w a \<Longrightarrow> \<not> pending w a"
  "interrupted w a \<Longrightarrow> \<not> pending w a"
  by (auto simp: no_such_table_def deleted_def ready_def pending_def interrupted_def
      split: status_outcome.splits)


lemma wait_iff:
  assumes "\<And>a. Q a \<Longrightarrow> \<not> pending w a"
    and "\<And>a imm. \<not> pending w a \<Longrightarrow> (outcome imm w a = r \<longleftrightarrow> I imm \<and> Q a)"
  shows "(\<exists>naps. wait_for_table_readiness w as = Some (r, naps)) \<longleftrightarrow>
         (\<exists>ps a rest. as = ps @ a # rest \<and> (\<forall>p \<in> set ps. pending w p) \<and> I (ps = []) \<and> Q a)"
proof
  assume "\<exists>naps. wait_for_table_readiness w as = Some (r, naps)"
  then obtain naps where "wait_loop True initial_poll_ms w [] as = Some (r, naps)"
    by (auto simp: wait_for_table_readiness_def)
  from wait_loop_returns[OF this] obtain ps a rest where
    d: "as = ps @ a # rest" "\<forall>p \<in> set ps. pending w p" "\<not> pending w a"
      "r = outcome (True \<and> ps = []) w a"
    by blast
  from assms(2)[OF d(3), of "ps = []"] d(4) have "I (ps = []) \<and> Q a" by simp
  with d show "\<exists>ps a rest. as = ps @ a # rest \<and> (\<forall>p \<in> set ps. pending w p) \<and> I (ps = []) \<and> Q a"
    by blast
next
  assume "\<exists>ps a rest. as = ps @ a # rest \<and> (\<forall>p \<in> set ps. pending w p) \<and> I (ps = []) \<and> Q a"
  then obtain ps a rest where
    d: "as = ps @ a # rest" "\<forall>p \<in> set ps. pending w p" "I (ps = [])" "Q a"
    by blast
  from assms(1)[OF d(4)] have np: "\<not> pending w a" .
  from assms(2)[OF np, of "ps = []"] d(3,4) have "outcome (ps = []) w a = r" by simp
  with wait_loop_prefix[OF d(2) np, of True initial_poll_ms "[]" rest] d(1)
  show "\<exists>naps. wait_for_table_readiness w as = Some (r, naps)"
    by (simp add: wait_for_table_readiness_def)
qed

text \<open>
  Claim C9, as stated, fails on the source: the status calculation runs inside the same
  \<open>try\<close> block, so when it raises the no-such-table exception the function returns
  \<open>DELETED\<close> although the table id was resolved and the database is not the deleted one.
\<close>

theorem deleted_only_if_unresolved_counterexample:
  "wait_for_table_readiness reads [ex_vanished] = Some (Inr DELETED, []) \<and>
   \<not> deleted ex_vanished"
  by (simp add: wait_for_table_readiness_def ex_vanished_def deleted_def found_def)

text \<open>
  Claim C9, amended. \<open>wait_for_table_readiness\<close> returns \<open>DELETED\<close> exactly when, after
  passes that all ended in a nap, a pass cannot resolve the table id, finds the name of
  the deleted database, or has the status calculation raise the no-such-table exception.
  This result is a returned value, while an interruption is the exception, raised exactly
  when after such passes the status calculation or the nap is interrupted. The function
  returns \<open>IMMEDIATE\<close> exactly when the first pass finds the table ready, with no nap
  taken, and \<open>WAITED\<close> exactly when a later pass does, with at least one nap taken.
\<close>

theorem wait_for_table_readiness_results:
  "((\<exists>naps. wait_for_table_readiness w as = Some (Inr DELETED, naps)) \<longleftrightarrow>
      (\<exists>ps a rest. as = ps @ a # rest \<and> (\<forall>p \<in> set ps. pending w p) \<and> no_such_table a)) \<and>
   ((\<exists>naps. wait_for_table_readiness w as = Some (Inl Interrupted_exc, naps)) \<longleftrightarrow>
      (\<exists>ps a rest. as = ps @ a # rest \<and> (\<forall>p \<in> set ps. pending w p) \<and> interrupted w a)) \<and>
   ((\<exists>naps. wait_for_table_readiness w as = Some (Inr IMMEDIATE, naps)) \<longleftrightarrow>
      (\<exists>a rest. as = a # rest \<and> ready w a)) \<and>
   ((\<exists>naps. wait_for_table_readiness w as = Some (Inr WAITED, naps)) \<longleftrightarrow>
      (\<exists>ps a rest. as = ps @ a # rest \<and> ps \<noteq> [] \<and> (\<forall>p \<in> set ps. pending w p) \<and> ready w a)) \<and>
   (\<forall>naps. wait_for_table_readiness w as = Some (Inr IMMEDIATE, naps) \<longrightarrow> naps = []) \<and>
   (\<forall>naps. wait_for_table_readiness w as = Some (Inr WAITED, naps) \<longrightarrow> naps \<noteq> [])"
proof -
  have D: "(\<exists>naps. wait_for_table_readiness w as = Some (Inr DELETED, naps)) \<longleftrightarrow>
      (\<exists>ps a rest. as = ps @ a # rest \<and> (\<forall>p \<in> set ps. pending w p) \<and> no_such_table a)"
    using wait_iff[of no_such_table w "Inr DELETED" "\<lambda>_. True" as]
    by (simp add: not_pending outcome_cases)
  have X: "(\<exists>naps. wait_for_table_readiness w as = Some (Inl Interrupted_exc, naps)) \<longleftrightarrow>
      (\<exists>ps a rest. as = ps @ a # rest \<and> (\<forall>p \<in> set ps. pending w p) \<and> interrupted w a)"
    using wait_iff[of "interrupted w" w "Inl Interrupted_exc" "\<lambda>_. True" as]
    by (simp add: not_pending outcome_cases)
  have "(\<exists>naps. wait_for_table_readiness w as = Some (Inr IMMEDIATE, naps)) \<longleftrightarrow>
      (\<exists>ps a rest. as = ps @ a # rest \<and> (\<forall>p \<in> set ps. pending w p) \<and> ps = [] \<and> ready w a)"
    using wait_iff[of "ready w" w "Inr IMMEDIATE" "\<lambda>b. b" as]
    by (simp add: not_pending outcome_cases)
  then have I: "(\<exists>naps. wait_for_table_readiness w as = Some (Inr IMMEDIATE, naps)) \<longleftrightarrow>
      (\<exists>a rest. as = a # rest \<and> ready w a)"
    by auto
  have "(\<exists>naps. wait_for_table_readiness w as = Some (Inr WAITED, naps)) \<longleftrightarrow>
      (\<exists>ps a rest. as = ps @ a # rest \<and> (\<forall>p \<in> set ps. pending w p) \<and> ps \<noteq> [] \<and> ready w a)"
    using wait_iff[of "ready w" w "Inr WAITED" "\<lambda>b. \<not> b" as]
    by (simp add: not_pending outcome_cases)
  then have W: "(\<exists>naps. wait_for_table_readiness w as = Some (Inr WAITED, naps)) \<longleftrightarrow>
      (\<exists>ps a rest. as = ps @ a # rest \<and> ps \<noteq> [] \<and> (\<forall>p \<in> set ps. pending w p) \<and> ready w a)"
    by auto
  have N: "(r = Inr IMMEDIATE \<longrightarrow> naps = []) \<and> (r = Inr WAITED \<longrightarrow> naps \<noteq> [])"
    if "wait_for_table_readiness w as = Some (r, naps)" for r naps
  proof -
    from that have "wait_loop True initial_poll_ms w [] as = Some (r, naps)"
      by (simp add: wait_for_table_readiness_def)
    from wait_loop_returns[OF this] obtain ps a rest where
      d: "\<not> pending w a" "r = outcome (True \<and> ps = []) w a"
        "naps = [] @ poll_seq initial_poll_ms (length ps)" "as = ps @ a # rest"
      by blast
    from outcome_cases[OF d(1), of "ps = []"] d(2)
    have "(r = Inr IMMEDIATE \<longrightarrow> ps = []) \<and> (r = Inr WAITED \<longrightarrow> ps \<noteq> [])" by simp
    then show ?thesis unfolding d(3) by (cases ps) auto
  qed
  have NI: "\<forall>naps. wait_for_table_readiness w as = Some (Inr IMMEDIATE, naps) \<longrightarrow> naps = []"
    using N by blast
  have NW: "\<forall>naps. wait_for_table_readiness w as = Some (Inr WAITED, naps) \<longrightarrow> naps \<noteq> []"
    using N by blast
  show ?thesis
    by (rule conjI[OF D conjI[OF X conjI[OF I conjI[OF W conjI[OF NI NW]]]]])
qed

text \<open>The theorem at four runs: a pass that is not ready followed by one in which the
  status calculation finds no table; a single pass with an unresolved table id; a single
  ready pass; a pass that is not ready followed by a ready one.\<close>

theorem wait_for_table_readiness_results_witness:
  "pending reads ex_pending \<and> no_such_table ex_vanished \<and> no_such_table ex_unresolved \<and>
   ready reads ex_ready_pass \<and>
   (\<exists>naps. wait_for_table_readiness reads [ex_pending, ex_vanished] = Some (Inr DELETED, naps)) \<and>
   (\<exists>naps. wait_for_table_readiness reads [ex_unresolved] = Some (Inr DELETED, naps)) \<and>
   (\<exists>naps. wait_for_table_readiness reads [ex_ready_pass] = Some (Inr IMMEDIATE, naps)) \<and>
   (\<exists>naps. wait_for_table_readiness reads [ex_pending, ex_ready_pass] = Some (Inr WAITED, naps))"
proof -
  have p: "pending reads ex_pending"
    by (simp add: pending_def found_def ex_pending_def)
  have v: "no_such_table ex_vanished" by (simp add: no_such_table_def ex_vanished_def)
  have u: "no_such_table ex_unresolved"
    by (simp add: no_such_table_def deleted_def found_def ex_unresolved_def)
  have r: "ready reads ex_ready_pass" by (simp add: ready_def found_def ex_ready_pass_def)
  have 1: "\<exists>ps a rest. [ex_pending, ex_vanished] = ps @ a # rest \<and>
             (\<forall>p \<in> set ps. pending reads p) \<and> no_such_table a"
    using p v by (intro exI[of _ "[ex_pending]"] exI[of _ ex_vanished] exI[of _ "[]"]) simp
  have 2: "\<exists>ps a rest. [ex_unresolved] = ps @ a # rest \<and>
             (\<forall>p \<in> set ps. pending reads p) \<and> no_such_table a"
    using u by (intro exI[of _ "[]"] exI[of _ ex_unresolved]) simp
  have 3: "\<exists>a rest. [ex_ready_pass] = a # rest \<and> ready reads a"
    using r by simp
  have 4: "\<exists>ps a rest. [ex_pending, ex_ready_pass] = ps @ a # rest \<and> ps \<noteq> [] \<and>
             (\<forall>p \<in> set ps. pending reads p) \<and> ready reads a"
    using p r by (intro exI[of _ "[ex_pending]"] exI[of _ ex_ready_pass] exI[of _ "[]"]) simp
  have a1: "\<exists>naps. wait_for_table_readiness reads [ex_pending, ex_vanished] = Some (Inr DELETED, naps)"
    using wait_for_table_readiness_results[of reads "[ex_pending, ex_vanished]", THEN conjunct1] 1
    by (rule iffD2)
  have a2: "\<exists>naps. wait_for_table_readiness reads [ex_unresolved] = Some (Inr DELETED, naps)"
    using wait_for_table_readiness_results[of reads "[ex_unresolved]", THEN conjunct1] 2
    by (rule iffD2)
  have a3: "\<exists>naps. wait_for_table_readiness reads [ex_ready_pass] = Some (Inr IMMEDIATE, naps)"
    using wait_for_table_readiness_results[of reads "[ex_ready_pass]",
        THEN conjunct2, THEN conjunct2, THEN conjunct1] 3
    by (rule iffD2)
  have a4: "\<exists>naps. wait_for_table_readiness reads [ex_pending, ex_ready_pass] = Some (Inr WAITED, naps)"
    using wait_for_table_readiness_results[of reads "[ex_pending, ex_ready_pass]",
        THEN conjunct2, THEN conjunct2, THEN conjunct2, THEN conjunct1] 4
    by (rule iffD2)
  show ?thesis using p v u r a1 a2 a3 a4 by simp
qed

section \<open>Exactly-once application\<close>

lemma ops_at_Nil [simp]: "ops_at k ts [] = []"
  by (simp add: ops_at_def)




lemma applied_new_write_token [simp]: "applied (snd (new_write_token s)) = applied s"
  by (simp add: new_write_token_def)
























lemma hist_Nil [simp]: "hist [] k = []"
  by (simp add: hist_def)






















end
